theory Spec2Isabelle
  imports Main "HOL-Library.List_Lexorder" "HOL-Library.Product_Lexorder" "HOL-Library.Multiset"
begin

section \<open>Python values and dictionaries\<close>

text \<open>
  \<^verbatim>\<open>coverage/data.py\<close> is dynamically typed: the keys of \<^verbatim>\<open>self.lines\<close> and
  \<^verbatim>\<open>self.arcs\<close> are whatever hashable objects the caller or the data file supplied.
  The values that can come out of \<^verbatim>\<open>pickle.load\<close> are modelled by \<open>pyval\<close>;
  a dictionary is the list of its items in iteration order (a new key goes to the end,
  an existing key keeps its place), and every statement about the contents of a
  dictionary is made through \<open>map_of\<close> or the set of its keys, as Python's \<^verbatim>\<open>==\<close>
  on dictionaries does.
\<close>

datatype pyval =
    PNone
  | PInt int
  | PStr string
  | PTuple "pyval list"
  | PList "pyval list"
  | PDict "(pyval \<times> pyval) list"

datatype error = IOError | OSError | UnpicklingError | AttributeError | TypeError | SystemExit

text \<open>
  \<^verbatim>\<open>isinstance(e, Exception)\<close>: \<^verbatim>\<open>SystemExit\<close> derives from \<^verbatim>\<open>BaseException\<close>
  only, so \<^verbatim>\<open>except Exception\<close> lets it pass.
\<close>

definition is_Exception :: "error \<Rightarrow> bool" where
  "is_Exception e = (e \<noteq> SystemExit)"

text \<open>
  \<^verbatim>\<open>except Exception: pass\<close> at the end of a \<^verbatim>\<open>try\<close> block that raised \<open>e\<close>, the
  variables of the function having the values \<open>sofar\<close> by then.
\<close>

definition except_Exception :: "error \<Rightarrow> 'a \<Rightarrow> error + 'a" where
  "except_Exception e sofar = (if is_Exception e then Inr sofar else Inl e)"

type_synonym ('k, 'v) pydict = "('k \<times> 'v) list"

text \<open>A dictionary whose values are all \<^verbatim>\<open>None\<close>: \<^verbatim>\<open>{ lineno: None, ... }\<close>.\<close>

type_synonym keydict = "(pyval, unit) pydict"

type_synonym filemap = "(pyval, keydict) pydict"

definition dict_get :: "('k, 'v) pydict \<Rightarrow> 'k \<Rightarrow> 'v option" where
  "dict_get d k = map_of d k"

text \<open>\<^verbatim>\<open>d[k] = v\<close>\<close>

fun dict_setitem :: "('k, 'v) pydict \<Rightarrow> 'k \<Rightarrow> 'v \<Rightarrow> ('k, 'v) pydict" where
  "dict_setitem [] k v = [(k, v)]"
| "dict_setitem ((k', v') # d) k v =
     (if k' = k then (k, v) # d else (k', v') # dict_setitem d k v)"

text \<open>\<^verbatim>\<open>d.update(e)\<close>\<close>

definition dict_update :: "('k, 'v) pydict \<Rightarrow> ('k, 'v) pydict \<Rightarrow> ('k, 'v) pydict" where
  "dict_update d e = fold (\<lambda>(k, v) acc. dict_setitem acc k v) e d"

text \<open>\<^verbatim>\<open>dict(pairs)\<close>\<close>

definition py_dict :: "('k \<times> 'v) list \<Rightarrow> ('k, 'v) pydict" where
  "py_dict pairs = dict_update [] pairs"

definition dict_keys :: "('k, 'v) pydict \<Rightarrow> 'k list" where
  "dict_keys d = map fst d"

text \<open>The keys of a dictionary as a set, and a map of key dictionaries as a map of sets.\<close>

definition keyset :: "('k, 'v) pydict \<Rightarrow> 'k set" where
  "keyset d = set (dict_keys d)"

definition setmap :: "('f, ('k, 'v) pydict) pydict \<Rightarrow> 'f \<Rightarrow> 'k set option" where
  "setmap m f = map_option keyset (dict_get m f)"

definition sets_of :: "'k set option \<Rightarrow> 'k set" where
  "sets_of s = (case s of None \<Rightarrow> {} | Some x \<Rightarrow> x)"

text \<open>What Python guarantees of every dictionary object: no key occurs twice.\<close>

definition wf_dict :: "('k, 'v) pydict \<Rightarrow> bool" where
  "wf_dict d = distinct (dict_keys d)"

fun hashable :: "pyval \<Rightarrow> bool" where
  "hashable PNone = True"
| "hashable (PInt n) = True"
| "hashable (PStr s) = True"
| "hashable (PTuple xs) = list_all hashable xs"
| "hashable (PList xs) = False"
| "hashable (PDict kvs) = False"

text \<open>\<^verbatim>\<open>isinstance(v, str)\<close>\<close>

definition is_str :: "pyval \<Rightarrow> bool" where
  "is_str v = (case v of PStr s \<Rightarrow> True | _ \<Rightarrow> False)"

text \<open>\<^verbatim>\<open>iter(v)\<close>: what a \<^verbatim>\<open>for\<close> over the value yields, or the \<^verbatim>\<open>TypeError\<close>.\<close>

fun py_iter :: "pyval \<Rightarrow> error + pyval list" where
  "py_iter (PList xs) = Inr xs"
| "py_iter (PTuple xs) = Inr xs"
| "py_iter (PDict kvs) = Inr (map fst kvs)"
| "py_iter (PStr s) = Inr (map (\<lambda>c. PStr [c]) s)"
| "py_iter PNone = Inl TypeError"
| "py_iter (PInt n) = Inl TypeError"

text \<open>\<^verbatim>\<open>dict.fromkeys(v, None)\<close>\<close>

definition dict_fromkeys :: "pyval \<Rightarrow> error + keydict" where
  "dict_fromkeys v =
     (case py_iter v of
        Inl e \<Rightarrow> Inl e
      | Inr xs \<Rightarrow>
          if list_all hashable xs then Inr (fold (\<lambda>k acc. dict_setitem acc k ()) xs [])
          else Inl TypeError)"

subsection \<open>Sorting\<close>

text \<open>
  Modelled from the spec: the order of \<^verbatim>\<open>coverage.backward.sorted\<close>, given by the
  key by which \<open>py_sorted\<close> compares: \<^verbatim>\<open>None\<close> comes before the integers,
  these before the strings, these before the tuples; integers go by value, strings by
  their characters and tuples component by component.
\<close>

fun cmp_key :: "pyval \<Rightarrow> int list" where
  "cmp_key PNone = [0]"
| "cmp_key (PInt n) = [1, n]"
| "cmp_key (PStr s) = 2 # map of_char s"
| "cmp_key (PTuple xs) = 3 # concat (map cmp_key xs)"
| "cmp_key (PList xs) = [4]"
| "cmp_key (PDict kvs) = [5]"

text \<open>An arc, the pair \<^verbatim>\<open>(l1, l2)\<close> of line numbers, as a Python value.\<close>

definition enc_arc :: "int \<times> int \<Rightarrow> pyval" where
  "enc_arc p = PTuple [PInt (fst p), PInt (snd p)]"

text \<open>
  Modelled from the spec: \<^verbatim>\<open>coverage.backward.sorted\<close>, which \<^verbatim>\<open>data.py\<close>
  imports and whose source is not at hand. The spec has the line numbers serialised as
  a sorted sequence and the arc pairs sorted lexicographically on (first, second); the
  sort is stable, as Python's is.
\<close>

definition py_sorted :: "pyval list \<Rightarrow> pyval list" where
  "py_sorted xs = sort_key cmp_key xs"

section \<open>The file system\<close>

text \<open>
  A file holds bytes that \<^verbatim>\<open>pickle.load\<close> turns into a value (\<open>Pickled v\<close>, and
  \<^verbatim>\<open>pickle.dump\<close> of \<open>v\<close> writes such a file) or on which it raises
  an exception (\<open>Garbage\<close>: truncated or corrupt content) or, a pickle being free
  to call any function, an error that is no exception (\<open>Exits\<close>: the pickle calls
  \<^verbatim>\<open>sys.exit\<close>); \<^verbatim>\<open>coverage.backward.pickle\<close> is taken to be the standard module.
  \<open>files\<close> maps a path to its file,
  \<open>listing\<close> a directory to the names \<^verbatim>\<open>os.listdir\<close> returns, in the order it
  returns them, and \<open>denied\<close> holds the paths on which \<^verbatim>\<open>open\<close> and
  \<^verbatim>\<open>os.remove\<close> fail.
\<close>

datatype fcontent = Pickled pyval | Garbage | Exits

record filesystem =
  files :: "string \<rightharpoonup> fcontent"
  listing :: "string \<rightharpoonup> string list"
  denied :: "string set"

definition os_path_exists :: "filesystem \<Rightarrow> string \<Rightarrow> bool" where
  "os_path_exists fs p = (p \<noteq> [] \<and> files fs p \<noteq> None)"

definition os_remove :: "filesystem \<Rightarrow> string \<Rightarrow> error + filesystem" where
  "os_remove fs p =
     (if p \<in> denied fs \<or> files fs p = None then Inl OSError
      else Inr (fs\<lparr>files := (files fs)(p := None)\<rparr>))"

definition os_listdir :: "filesystem \<Rightarrow> string \<Rightarrow> error + string list" where
  "os_listdir fs d = (case listing fs d of None \<Rightarrow> Inl OSError | Some names \<Rightarrow> Inr names)"

text \<open>\<^verbatim>\<open>posixpath.basename\<close>, \<^verbatim>\<open>split\<close> and \<^verbatim>\<open>join\<close> (of two components).\<close>

definition os_path_basename :: "string \<Rightarrow> string" where
  "os_path_basename p = rev (takeWhile (\<lambda>c. c \<noteq> CHR ''/'') (rev p))"

definition os_path_split :: "string \<Rightarrow> string \<times> string" where
  "os_path_split p =
     (let tail = os_path_basename p;
          head = take (length p - length tail) p
      in if head \<noteq> [] \<and> \<not> list_all (\<lambda>c. c = CHR ''/'') head
         then (rev (dropWhile (\<lambda>c. c = CHR ''/'') (rev head)), tail)
         else (head, tail))"

definition os_path_join :: "string \<Rightarrow> string \<Rightarrow> string" where
  "os_path_join a b =
     (if take 1 b = ''/'' then b
      else if a = [] \<or> (a \<noteq> [] \<and> last a = CHR ''/'') then a @ b
      else a @ ''/'' @ b)"

definition startswith :: "string \<Rightarrow> string \<Rightarrow> bool" where
  "startswith s p = (take (length p) s = p)"

section \<open>CoverageData\<close>

record CoverageData =
  collector :: "string option"
  use_file :: bool
  filename :: string
  lines :: filemap
  arcs :: filemap

definition wf_filemap :: "filemap \<Rightarrow> bool" where
  "wf_filemap m =
     (wf_dict m \<and> list_all (\<lambda>(f, d). hashable f \<and> wf_dict d \<and> list_all hashable (dict_keys d)) m)"

text \<open>The state of a store whose two maps are Python dictionaries of dictionaries.\<close>

definition wf_store :: "CoverageData \<Rightarrow> bool" where
  "wf_store st = (wf_filemap (lines st) \<and> wf_filemap (arcs st))"

definition usefile :: "CoverageData \<Rightarrow> bool \<Rightarrow> CoverageData" where
  "usefile st flag = st\<lparr>use_file := flag\<rparr>"

definition line_data :: "CoverageData \<Rightarrow> (pyval, pyval list) pydict" where
  "line_data st = py_dict (map (\<lambda>(f, lmap). (f, py_sorted (dict_keys lmap))) (lines st))"

definition arc_data :: "CoverageData \<Rightarrow> (pyval, pyval list) pydict" where
  "arc_data st = py_dict (map (\<lambda>(f, amap). (f, py_sorted (dict_keys amap))) (arcs st))"

text \<open>The dictionary \<^verbatim>\<open>data\<close> that \<^verbatim>\<open>write_file\<close> builds and pickles.\<close>

definition as_pyval :: "(pyval, pyval list) pydict \<Rightarrow> pyval" where
  "as_pyval d = PDict (map (\<lambda>(f, xs). (f, PList xs)) d)"

definition write_file_data :: "CoverageData \<Rightarrow> (pyval, pyval) pydict" where
  "write_file_data st =
     (let data = dict_setitem [] (PStr ''lines'') (as_pyval (line_data st));
          arcs = arc_data st;
          data = (if arcs \<noteq> [] then dict_setitem data (PStr ''arcs'') (as_pyval arcs) else data)
      in case collector st of
           None \<Rightarrow> data
         | Some c \<Rightarrow> if c \<noteq> [] then dict_setitem data (PStr ''collector'') (PStr c) else data)"

definition write_file :: "CoverageData \<Rightarrow> filesystem \<Rightarrow> string \<Rightarrow> error + filesystem" where
  "write_file st fs path =
     (if path \<in> denied fs then Inl IOError
      else Inr (fs\<lparr>files := (files fs)(path \<mapsto> Pickled (PDict (write_file_data st)))\<rparr>))"

definition raw_data :: "filesystem \<Rightarrow> string \<Rightarrow> error + pyval" where
  "raw_data fs path =
     (if path \<in> denied fs then Inl IOError
      else case files fs path of
             None \<Rightarrow> Inl IOError
           | Some Garbage \<Rightarrow> Inl UnpicklingError
           | Some Exits \<Rightarrow> Inl SystemExit
           | Some (Pickled v) \<Rightarrow> Inr v)"

text \<open>
  The list comprehension of \<^verbatim>\<open>_read_file\<close>:
  \<^verbatim>\<open>[(f, dict.fromkeys(xs, None)) for f, xs in items]\<close>; the first exception ends it.
\<close>

fun unpack_items :: "(pyval \<times> pyval) list \<Rightarrow> error + (pyval \<times> keydict) list" where
  "unpack_items [] = Inr []"
| "unpack_items ((f, xs) # rest) =
     (case dict_fromkeys xs of
        Inl e \<Rightarrow> Inl e
      | Inr d \<Rightarrow>
          (case unpack_items rest of
             Inl e \<Rightarrow> Inl e
           | Inr ps \<Rightarrow> Inr ((f, d) # ps)))"

text \<open>\<^verbatim>\<open>dict([... for f, xs in data.get(key, {}).items()])\<close>\<close>

definition unpack_item :: "(pyval, pyval) pydict \<Rightarrow> string \<Rightarrow> error + filemap" where
  "unpack_item data key =
     (case (case dict_get data (PStr key) of None \<Rightarrow> PDict [] | Some v \<Rightarrow> v) of
        PDict items \<Rightarrow>
          (case unpack_items items of Inl e \<Rightarrow> Inl e | Inr ps \<Rightarrow> Inr (py_dict ps))
      | _ \<Rightarrow> Inl AttributeError)"



text \<open>
  \<^verbatim>\<open>_read_file\<close>. Whatever the \<^verbatim>\<open>try\<close> block raises goes through
  \<^verbatim>\<open>except Exception\<close>, with \<^verbatim>\<open>lines\<close> and \<^verbatim>\<open>arcs\<close> as they are by then:
  \<^verbatim>\<open>lines\<close> is assigned before the \<^verbatim>\<open>arcs\<close> item is unpacked.
\<close>

definition u_read_file :: "filesystem \<Rightarrow> string \<Rightarrow> error + filemap \<times> filemap" where
  "u_read_file fs path =
     (case raw_data fs path of
        Inl e \<Rightarrow> except_Exception e ([], [])
      | Inr (PDict data) \<Rightarrow>
          (case unpack_item data ''lines'' of
             Inl e \<Rightarrow> except_Exception e ([], [])
           | Inr ls \<Rightarrow>
               (case unpack_item data ''arcs'' of
                  Inl e \<Rightarrow> except_Exception e (ls, [])
                | Inr as \<Rightarrow> Inr (ls, as)))
      | Inr _ \<Rightarrow> Inr ([], []))"

definition read_file :: "CoverageData \<Rightarrow> filesystem \<Rightarrow> string \<Rightarrow> error + CoverageData" where
  "read_file st fs path =
     (case u_read_file fs path of
        Inl e \<Rightarrow> Inl e
      | Inr (ls, as) \<Rightarrow> Inr (st\<lparr>lines := ls, arcs := as\<rparr>))"

text \<open>
  The line map (or arc map) a store holds after reading back what \<^verbatim>\<open>write_file\<close>
  stored for the map \<open>m\<close>: the keys of every file, sorted.
\<close>

definition reread :: "filemap \<Rightarrow> filemap" where
  "reread m = map (\<lambda>(f, d). (f, map (\<lambda>k. (k, ())) (py_sorted (dict_keys d)))) m"

definition read_store :: "CoverageData \<Rightarrow> filesystem \<Rightarrow> error + CoverageData" where
  "read_store st fs =
     (if use_file st then read_file st fs (filename st)
      else Inr (st\<lparr>lines := [], arcs := []\<rparr>))"

definition write_store :: "CoverageData \<Rightarrow> filesystem \<Rightarrow> error + filesystem" where
  "write_store st fs = (if use_file st then write_file st fs (filename st) else Inr fs)"

text \<open>
  \<^verbatim>\<open>erase\<close>. The result is the exception that leaves the call, if any, with the store
  and the file system as the call leaves them: an exception of \<^verbatim>\<open>os.remove\<close> comes
  before the two assignments.
\<close>

definition erase ::
  "CoverageData \<Rightarrow> filesystem \<Rightarrow> error option \<times> CoverageData \<times> filesystem" where
  "erase st fs =
     (case (if use_file st \<and> filename st \<noteq> [] \<and> os_path_exists fs (filename st)
            then os_remove fs (filename st) else Inr fs) of
        Inl e \<Rightarrow> (Some e, st, fs)
      | Inr fs' \<Rightarrow> (None, st\<lparr>lines := [], arcs := []\<rparr>, fs'))"

text \<open>\<^verbatim>\<open>m.setdefault(name, {}).update(d)\<close>\<close>

definition setdefault_update :: "filemap \<Rightarrow> pyval \<Rightarrow> keydict \<Rightarrow> filemap" where
  "setdefault_update m name d =
     (case dict_get m name of
        None \<Rightarrow> dict_setitem m name (dict_update [] d)
      | Some old \<Rightarrow> dict_setitem m name (dict_update old d))"

text \<open>\<^verbatim>\<open>for name, d in new.items(): m.setdefault(name, {}).update(d)\<close>\<close>

definition merge_items :: "filemap \<Rightarrow> filemap \<Rightarrow> filemap" where
  "merge_items m new = fold (\<lambda>(name, d) acc. setdefault_update acc name d) new m"

definition add_line_data :: "CoverageData \<Rightarrow> filemap \<Rightarrow> CoverageData" where
  "add_line_data st new_data = st\<lparr>lines := merge_items (lines st) new_data\<rparr>"

definition add_arc_data :: "CoverageData \<Rightarrow> filemap \<Rightarrow> CoverageData" where
  "add_arc_data st new_data = st\<lparr>arcs := merge_items (arcs st) new_data\<rparr>"

text \<open>One round of the loop of \<^verbatim>\<open>combine_parallel_data\<close>, for the directory entry \<open>f\<close>.\<close>

definition combine_entry ::
  "filesystem \<Rightarrow> string \<Rightarrow> string \<Rightarrow> string \<Rightarrow> CoverageData \<Rightarrow> error + CoverageData" where
  "combine_entry fs data_dir local f st =
     (if startswith f local
      then (case u_read_file fs (os_path_join data_dir f) of
              Inl e \<Rightarrow> Inl e
            | Inr (new_lines, new_arcs) \<Rightarrow>
                Inr (st\<lparr>lines := merge_items (lines st) new_lines\<rparr>))
      else Inr st)"

text \<open>The loop of \<^verbatim>\<open>combine_parallel_data\<close> over the directory entries.\<close>

fun combine_loop ::
  "filesystem \<Rightarrow> string \<Rightarrow> string \<Rightarrow> string list \<Rightarrow> CoverageData \<Rightarrow> error + CoverageData" where
  "combine_loop fs data_dir local [] st = Inr st"
| "combine_loop fs data_dir local (f # names) st =
     (case combine_entry fs data_dir local f st of
        Inl e \<Rightarrow> Inl e
      | Inr st' \<Rightarrow> combine_loop fs data_dir local names st')"

text \<open>
  The items of the line maps that \<^verbatim>\<open>_read_file\<close> returns for the directory entries
  \<open>names\<close> that start with \<open>local\<close>, in the order of the loop of
  \<^verbatim>\<open>combine_parallel_data\<close>.
\<close>

definition sibling_items :: "filesystem \<Rightarrow> string \<Rightarrow> string \<Rightarrow> string list \<Rightarrow> filemap" where
  "sibling_items fs data_dir local names =
     concat (map (\<lambda>f. case u_read_file fs (os_path_join data_dir f) of
                         Inl e \<Rightarrow> []
                       | Inr (new_lines, new_arcs) \<Rightarrow> new_lines)
       (filter (\<lambda>f. startswith f local) names))"

definition combine_parallel_data :: "CoverageData \<Rightarrow> filesystem \<Rightarrow> error + CoverageData" where
  "combine_parallel_data st fs =
     (case os_path_split (filename st) of
        (data_dir, local) \<Rightarrow>
          (case os_listdir fs (if data_dir \<noteq> [] then data_dir else ''.'') of
             Inl e \<Rightarrow> Inl e
           | Inr names \<Rightarrow> combine_loop fs data_dir local names st))"

definition executed_files :: "CoverageData \<Rightarrow> pyval list" where
  "executed_files st = dict_keys (lines st)"

definition executed_lines :: "CoverageData \<Rightarrow> pyval \<Rightarrow> keydict" where
  "executed_lines st name =
     (case dict_get (lines st) name of None \<Rightarrow> [] | Some d \<Rightarrow> if d \<noteq> [] then d else [])"

definition executed_arcs :: "CoverageData \<Rightarrow> pyval \<Rightarrow> keydict" where
  "executed_arcs st name =
     (case dict_get (arcs st) name of None \<Rightarrow> [] | Some d \<Rightarrow> if d \<noteq> [] then d else [])"

text \<open>
  \<^verbatim>\<open>filename_fn\<close> of \<^verbatim>\<open>summary\<close>: the identity, or \<^verbatim>\<open>os.path.basename\<close>, which
  raises on a key that is not a string.
\<close>

definition filename_fn :: "bool \<Rightarrow> pyval \<Rightarrow> error + pyval" where
  "filename_fn fullpath f =
     (if fullpath then Inr f
      else case f of PStr s \<Rightarrow> Inr (PStr (os_path_basename s)) | _ \<Rightarrow> Inl AttributeError)"

fun summary_loop ::
  "bool \<Rightarrow> (pyval \<times> keydict) list \<Rightarrow> (pyval, nat) pydict \<Rightarrow> error + (pyval, nat) pydict" where
  "summary_loop fullpath [] summ = Inr summ"
| "summary_loop fullpath ((f, ls) # rest) summ =
     (case filename_fn fullpath f of
        Inl e \<Rightarrow> Inl e
      | Inr k \<Rightarrow> summary_loop fullpath rest (dict_setitem summ k (length ls)))"

definition summary :: "CoverageData \<Rightarrow> bool \<Rightarrow> error + (pyval, nat) pydict" where
  "summary st fullpath = summary_loop fullpath (lines st) []"

section \<open>Dictionary lemmas\<close>

lemma map_of_setitem: "map_of (dict_setitem d k v) = (map_of d)(k \<mapsto> v)"
  by (induction d k v rule: dict_setitem.induct) auto

lemma keys_setitem:
  "map fst (dict_setitem d k v) = (if k \<in> set (map fst d) then map fst d else map fst d @ [k])"
  by (induction d k v rule: dict_setitem.induct) auto

lemma keyset_Nil: "keyset [] = {}"
  by (simp add: keyset_def dict_keys_def)

lemma keyset_Cons: "keyset (p # d) = insert (fst p) (keyset d)"
  by (simp add: keyset_def dict_keys_def)

lemma setitem_same: "map_of d k = Some v \<Longrightarrow> dict_setitem d k v = d"
  by (induction d k v rule: dict_setitem.induct) (auto split: if_splits)

lemma keyset_setitem: "keyset (dict_setitem d k v) = insert k (keyset d)"
  by (auto simp: keyset_def dict_keys_def keys_setitem)

lemma wf_dict_setitem: "wf_dict d \<Longrightarrow> wf_dict (dict_setitem d k v)"
  by (simp add: wf_dict_def dict_keys_def keys_setitem)

lemma keyset_update: "keyset (dict_update d e) = keyset d \<union> keyset e"
  unfolding dict_update_def
proof (induction e arbitrary: d)
  case Nil
  show ?case by (simp add: keyset_Nil)
next
  case (Cons p e)
  obtain k v where p: "p = (k, v)" by (cases p)
  from Cons [of "dict_setitem d k v"] show ?case
    by (simp add: p keyset_setitem keyset_Cons)
qed

lemma wf_dict_update: "wf_dict d \<Longrightarrow> wf_dict (dict_update d e)"
  unfolding dict_update_def
  by (induction e arbitrary: d) (auto simp: wf_dict_setitem)

lemma update_absorbed:
  fixes old :: "('k, unit) pydict"
  shows "keyset e \<subseteq> keyset old \<Longrightarrow> dict_update old e = old"
  unfolding dict_update_def
proof (induction e)
  case Nil
  show ?case by simp
next
  case (Cons p e)
  obtain k v where p: "p = (k, v)" by (cases p)
  from Cons.prems have k: "k \<in> fst ` set old" and rest: "keyset e \<subseteq> keyset old"
    by (auto simp: p keyset_def dict_keys_def)
  from k have "map_of old k = Some v"
    by (cases "map_of old k") (auto simp: map_of_eq_None_iff)
  then have "dict_setitem old k v = old" by (rule setitem_same)
  with Cons.IH [OF rest] show ?case by (simp add: p)
qed

lemma setmap_setdefault_update:
  "setmap (setdefault_update m name d) =
     (setmap m)(name \<mapsto> sets_of (setmap m name) \<union> keyset d)"
  by (auto simp: setmap_def setdefault_update_def dict_get_def map_of_setitem keyset_update
      sets_of_def fun_eq_iff keyset_Nil split: option.splits)

lemma setmap_merge_items:
  "setmap (merge_items m new) f =
     (if f \<in> keyset new
      then Some (sets_of (setmap m f) \<union> \<Union> {keyset d | d. (f, d) \<in> set new})
      else setmap m f)"
  unfolding merge_items_def
proof (induction new arbitrary: m)
  case Nil
  show ?case by (simp add: keyset_Nil)
next
  case (Cons p new)
  obtain g d where p: "p = (g, d)" by (cases p)
  have U: "\<Union> {keyset x | x. (g, x) \<in> set (p # new)} = keyset d \<union> \<Union> {keyset x | x. (g, x) \<in> set new}"
    by (auto simp: p)
  have V: "f \<noteq> g \<Longrightarrow> {keyset x | x. (f, x) \<in> set (p # new)} = {keyset x | x. (f, x) \<in> set new}"
    by (auto simp: p)
  have W: "g \<notin> keyset new \<Longrightarrow> {keyset x | x. (g, x) \<in> set new} = {}"
    by (force simp: keyset_def dict_keys_def)
  show ?case
  proof (cases "f = g")
    case True
    have "setmap (fold (\<lambda>(name, d) acc. setdefault_update acc name d) new (setdefault_update m g d)) g
        = Some (sets_of (setmap m g) \<union> keyset d \<union> \<Union> {keyset x | x. (g, x) \<in> set new})"
      using Cons.IH [of "setdefault_update m g d"] unfolding True
      by (auto simp: setmap_setdefault_update sets_of_def W)
    then show ?thesis
      unfolding True U by (simp add: p keyset_Cons Un_assoc)
  next
    case False
    then show ?thesis
      by (simp add: p Cons.IH setmap_setdefault_update keyset_Cons V)
  qed
qed

lemma setdefault_update_absorbed:
  assumes "dict_get m name = Some old" "keyset d \<subseteq> keyset old"
  shows "setdefault_update m name d = m"
  using assms by (simp add: setdefault_update_def update_absorbed setitem_same dict_get_def)

lemma fold_fixed: "(\<And>x. x \<in> set xs \<Longrightarrow> f x s = s) \<Longrightarrow> fold f xs s = s"
  by (induction xs) auto

lemma merge_items_absorbed:
  assumes "\<And>name d. (name, d) \<in> set new \<Longrightarrow> \<exists>old. dict_get m name = Some old \<and> keyset d \<subseteq> keyset old"
  shows "merge_items m new = m"
  unfolding merge_items_def
proof (rule fold_fixed)
  fix x assume x: "x \<in> set new"
  obtain name d where p: "x = (name, d)" by (cases x)
  from assms [of name d] x obtain old where "dict_get m name = Some old" "keyset d \<subseteq> keyset old"
    by (auto simp: p)
  then show "(case x of (name, d) \<Rightarrow> \<lambda>acc. setdefault_update acc name d) m = m"
    by (simp add: p setdefault_update_absorbed)
qed

lemma merge_items_twice: "merge_items (merge_items m new) new = merge_items m new"
proof (rule merge_items_absorbed)
  fix name d assume nd: "(name, d) \<in> set new"
  then have k: "name \<in> keyset new" by (force simp: keyset_def dict_keys_def)
  from nd have sub: "keyset d \<subseteq> \<Union> {keyset x | x. (name, x) \<in> set new}" by auto
  have "setmap (merge_items m new) name
      = Some (sets_of (setmap m name) \<union> \<Union> {keyset x | x. (name, x) \<in> set new})"
    using k by (simp add: setmap_merge_items)
  then obtain old where "dict_get (merge_items m new) name = Some old"
    and "keyset old = sets_of (setmap m name) \<union> \<Union> {keyset x | x. (name, x) \<in> set new}"
    by (auto simp: setmap_def)
  with sub show "\<exists>old. dict_get (merge_items m new) name = Some old \<and> keyset d \<subseteq> keyset old"
    by auto
qed

lemma keyset_executed_lines: "keyset (executed_lines st f) = sets_of (setmap (lines st) f)"
  by (auto simp: executed_lines_def setmap_def sets_of_def keyset_Nil split: option.splits)

lemma wf_dict_unique:
  assumes "wf_dict d" "dict_get d f = Some A"
  shows "{keyset x | x. (f, x) \<in> set d} = {keyset A}"
proof -
  from assms have "\<And>x. (f, x) \<in> set d \<longleftrightarrow> x = A"
    by (auto simp: wf_dict_def dict_keys_def dict_get_def dest: map_of_SomeD eq_key_imp_eq_value)
  then show ?thesis by auto
qed

lemma dict_get_keyset: "dict_get d f = Some A \<Longrightarrow> f \<in> keyset d"
  by (force simp: dict_get_def keyset_def dict_keys_def dest: map_of_SomeD)

lemma setmap_merge_commute:
  "setmap (merge_items (merge_items m a) b) = setmap (merge_items (merge_items m b) a)"
  by (rule ext) (auto simp: setmap_merge_items sets_of_def split: option.splits)

section \<open>Accumulation\<close>

text \<open>
  C1. Let two mappings \<open>dA\<close> and \<open>dB\<close> give the file \<open>f\<close> the line numbers
  \<open>A\<close> and \<open>B\<close>. After \<^verbatim>\<open>add_line_data(dA)\<close> and \<^verbatim>\<open>add_line_data(dB)\<close>, in
  either order, \<^verbatim>\<open>executed_lines(f)\<close> holds the file's previous line numbers together
  with those of \<open>A\<close> and of \<open>B\<close>; the two orders give the same line map for every
  file; repeating \<^verbatim>\<open>add_line_data(dA)\<close> changes nothing; and \<open>f\<close> has an entry
  after the first call, whether or not it had one before.
\<close>

theorem add_line_data_union:
  assumes "wf_dict dA" "wf_dict dB" "dict_get dA f = Some A" "dict_get dB f = Some B"
  shows "keyset (executed_lines (add_line_data (add_line_data st dA) dB) f)
           = keyset (executed_lines st f) \<union> keyset A \<union> keyset B
       \<and> keyset (executed_lines (add_line_data (add_line_data st dB) dA) f)
           = keyset (executed_lines st f) \<union> keyset A \<union> keyset B
       \<and> setmap (lines (add_line_data (add_line_data st dB) dA))
           = setmap (lines (add_line_data (add_line_data st dA) dB))
       \<and> add_line_data (add_line_data st dA) dA = add_line_data st dA
       \<and> f \<in> set (executed_files (add_line_data st dA))
       \<and> keyset (executed_lines (add_line_data st dA) f) = keyset (executed_lines st f) \<union> keyset A"
proof -
  note u = wf_dict_unique [OF assms(1,3)] wf_dict_unique [OF assms(2,4)]
  note k = dict_get_keyset [OF assms(3)] dict_get_keyset [OF assms(4)]
  have 1: "keyset (executed_lines (add_line_data (add_line_data st dA) dB) f)
           = keyset (executed_lines st f) \<union> keyset A \<union> keyset B"
    by (simp add: keyset_executed_lines add_line_data_def setmap_merge_items u k sets_of_def)
  have 2: "keyset (executed_lines (add_line_data (add_line_data st dB) dA) f)
           = keyset (executed_lines st f) \<union> keyset A \<union> keyset B"
    by (auto simp: keyset_executed_lines add_line_data_def setmap_merge_items u k sets_of_def)
  have 3: "setmap (lines (add_line_data (add_line_data st dB) dA))
           = setmap (lines (add_line_data (add_line_data st dA) dB))"
    by (simp add: add_line_data_def setmap_merge_commute)
  have 4: "add_line_data (add_line_data st dA) dA = add_line_data st dA"
    by (simp add: add_line_data_def merge_items_twice)
  have "setmap (lines (add_line_data st dA)) f \<noteq> None"
    by (simp add: add_line_data_def setmap_merge_items k)
  then have 5: "f \<in> set (executed_files (add_line_data st dA))"
    by (auto simp: executed_files_def setmap_def dict_get_def dict_keys_def map_of_eq_None_iff)
  have 6: "keyset (executed_lines (add_line_data st dA) f) = keyset (executed_lines st f) \<union> keyset A"
    by (simp add: keyset_executed_lines add_line_data_def setmap_merge_items u k sets_of_def)
  from 1 2 3 4 5 6 show ?thesis by simp
qed

theorem add_line_data_union_witness:
  "keyset (executed_lines
     (add_line_data
       (add_line_data
         \<lparr>collector = None, use_file = True, filename = ''/d/cov'',
          lines = [(PStr ''a.py'', [(PInt 7, ())])], arcs = []\<rparr>
         [(PStr ''a.py'', [(PInt 1, ()), (PInt 2, ())])])
       [(PStr ''b.py'', [(PInt 9, ())]), (PStr ''a.py'', [(PInt 2, ()), (PInt 3, ())])])
     (PStr ''a.py'')) = {PInt 7, PInt 1, PInt 2, PInt 3}"
  using add_line_data_union [of "[(PStr ''a.py'', [(PInt 1, ()), (PInt 2, ())])]"
      "[(PStr ''b.py'', [(PInt 9, ())]), (PStr ''a.py'', [(PInt 2, ()), (PInt 3, ())])]"
      "PStr ''a.py''" "[(PInt 1, ()), (PInt 2, ())]" "[(PInt 2, ()), (PInt 3, ())]"
      "\<lparr>collector = None, use_file = True, filename = ''/d/cov'',
          lines = [(PStr ''a.py'', [(PInt 7, ())])], arcs = []\<rparr>"]
  by (simp add: wf_dict_def dict_keys_def dict_get_def keyset_def executed_lines_def insert_commute)

lemma setitem_fresh: "k \<notin> keyset d \<Longrightarrow> dict_setitem d k v = d @ [(k, v)]"
  by (induction d k v rule: dict_setitem.induct) (auto simp: keyset_Cons keyset_Nil)

lemma update_fresh: "distinct (map fst (d @ e)) \<Longrightarrow> dict_update d e = d @ e"
  unfolding dict_update_def
proof (induction e arbitrary: d)
  case Nil
  show ?case by simp
next
  case (Cons p e)
  obtain k v where p: "p = (k, v)" by (cases p)
  from Cons.prems have "k \<notin> keyset d" by (auto simp: p keyset_def dict_keys_def)
  then have s: "dict_setitem d k v = d @ [(k, v)]" by (rule setitem_fresh)
  from Cons.prems have "distinct (map fst ((d @ [(k, v)]) @ e))" by (auto simp: p)
  from Cons.IH [OF this] show ?case by (simp add: p s)
qed

lemma py_dict_wf: "wf_dict xs \<Longrightarrow> py_dict xs = xs"
  using update_fresh [of "[]" xs] by (simp add: py_dict_def wf_dict_def dict_keys_def)

lemma wf_dict_map_values: "wf_dict (map (\<lambda>(k, v). (k, g v)) d) = wf_dict d"
  by (simp add: wf_dict_def dict_keys_def case_prod_unfold o_def)

lemma line_data_wf:
  "wf_dict (lines st) \<Longrightarrow>
     line_data st = map (\<lambda>(f, lmap). (f, py_sorted (dict_keys lmap))) (lines st)"
  by (simp add: line_data_def py_dict_wf wf_dict_map_values)

lemma arc_data_wf:
  "wf_dict (arcs st) \<Longrightarrow>
     arc_data st = map (\<lambda>(f, amap). (f, py_sorted (dict_keys amap))) (arcs st)"
  by (simp add: arc_data_def py_dict_wf wf_dict_map_values)

lemma dict_get_map_values:
  "dict_get (map (\<lambda>(k, v). (k, g v)) d) k = map_option g (dict_get d k)"
  by (simp add: dict_get_def map_of_map)

lemma dict_get_setdefault_update:
  "dict_get (setdefault_update m g x) f =
     (if f = g then Some (dict_update (case dict_get m g of None \<Rightarrow> [] | Some old \<Rightarrow> old) x)
      else dict_get m f)"
  by (simp add: setdefault_update_def dict_get_def map_of_setitem split: option.splits)

lemma dict_get_merge_other: "f \<notin> keyset new \<Longrightarrow> dict_get (merge_items m new) f = dict_get m f"
  unfolding merge_items_def
  by (induction new arbitrary: m) (auto simp: keyset_Cons dict_get_setdefault_update)

lemma wf_dict_setdefault_update: "wf_dict m \<Longrightarrow> wf_dict (setdefault_update m g x)"
  by (simp add: setdefault_update_def wf_dict_setitem split: option.splits)

lemma wf_dict_merge_items: "wf_dict m \<Longrightarrow> wf_dict (merge_items m new)"
  unfolding merge_items_def
  by (induction new arbitrary: m) (auto simp: wf_dict_setdefault_update)

lemma dict_get_merge_empty:
  assumes "wf_dict new" "dict_get new f = Some []"
  shows "dict_get (merge_items m new) f
           = Some (case dict_get m f of None \<Rightarrow> [] | Some old \<Rightarrow> old)"
  using assms
proof (induction new arbitrary: m)
  case Nil
  then show ?case by (simp add: dict_get_def)
next
  case (Cons p new)
  obtain g x where p: "p = (g, x)" by (cases p)
  have step: "merge_items m (p # new) = merge_items (setdefault_update m g x) new"
    by (simp add: merge_items_def p)
  from Cons.prems(1) have wf: "wf_dict new" and fresh: "g \<notin> keyset new"
    by (auto simp: wf_dict_def dict_keys_def keyset_def p)
  show ?case
  proof (cases "g = f")
    case True
    with Cons.prems(2) have "x = []" by (simp add: p dict_get_def)
    with True fresh show ?thesis
      by (simp add: step dict_get_merge_other dict_get_setdefault_update dict_update_def)
  next
    case False
    with Cons.prems(2) have "dict_get new f = Some []" by (simp add: p dict_get_def)
    from Cons.IH [OF wf this, of "setdefault_update m g x"] False show ?thesis
      by (simp add: step dict_get_setdefault_update)
  qed
qed

lemma py_sorted_Nil: "py_sorted [] = []"
  by (simp add: py_sorted_def)

lemma map_of_dict_update: "map_of (dict_update d e) = map_of d ++ map_of (rev e)"
  unfolding dict_update_def
proof (induction e arbitrary: d)
  case Nil
  show ?case by simp
next
  case (Cons p e)
  obtain k v where p: "p = (k, v)" by (cases p)
  show ?case
    by (rule ext)
      (simp add: p Cons.IH map_of_setitem map_of_append map_add_def split: option.splits)
qed

lemma dict_get_py_dict: "dict_get (py_dict xs) k = map_of (rev xs) k"
  by (simp add: dict_get_def py_dict_def map_of_dict_update)

lemma set_setitem: "set (dict_setitem m k v) \<subseteq> insert (k, v) (set m)"
  by (induction m k v rule: dict_setitem.induct) auto

lemma dict_update_Nil: "dict_update d [] = d"
  by (simp add: dict_update_def)

lemma empty_entries_setdefault_update:
  assumes "\<forall>y. (f, y) \<in> set m \<longrightarrow> y = []" "g = f \<longrightarrow> x = []"
  shows "\<forall>y. (f, y) \<in> set (setdefault_update m g x) \<longrightarrow> y = []"
proof (cases "g = f")
  case False
  then show ?thesis
    using assms(1) set_setitem [of m g]
    by (fastforce simp: setdefault_update_def split: option.splits)
next
  case True
  with assms(2) have x: "x = []" by simp
  have "setdefault_update m f [] = dict_setitem m f []"
  proof (cases "dict_get m f")
    case None
    then show ?thesis by (simp add: setdefault_update_def dict_update_Nil)
  next
    case (Some old)
    then have "(f, old) \<in> set m" by (simp add: dict_get_def map_of_SomeD)
    with assms(1) have "old = []" by simp
    with Some show ?thesis by (simp add: setdefault_update_def dict_update_Nil)
  qed
  then show ?thesis
    using assms(1) set_setitem [of m f "[]"] by (auto simp: True x)
qed

lemma empty_entries_merge_items:
  assumes "\<forall>x. (f, x) \<in> set new \<longrightarrow> x = []" "\<forall>y. (f, y) \<in> set m \<longrightarrow> y = []"
  shows "\<forall>y. (f, y) \<in> set (merge_items m new) \<longrightarrow> y = []"
  using assms
proof (induction new arbitrary: m)
  case Nil
  then show ?case by (simp add: merge_items_def)
next
  case (Cons p new)
  obtain g x where p: "p = (g, x)" by (cases p)
  have step: "merge_items m (p # new) = merge_items (setdefault_update m g x) new"
    by (simp add: merge_items_def p)
  from Cons.prems(1) have gx: "g = f \<longrightarrow> x = []" and rest: "\<forall>x. (f, x) \<in> set new \<longrightarrow> x = []"
    by (auto simp: p)
  from empty_entries_setdefault_update [OF Cons.prems(2) gx]
  have "\<forall>y. (f, y) \<in> set (setdefault_update m g x) \<longrightarrow> y = []" .
  from Cons.IH [OF rest this] show ?case by (simp only: step)
qed

text \<open>What an accumulation call makes of a map in which \<open>f\<close> has no entry yet.\<close>

lemma merge_empty_absent:
  assumes "wf_dict d" "dict_get d f = Some []" "dict_get m f = None"
  shows "dict_get (merge_items m d) f = Some []"
    and "dict_get (py_dict (map (\<lambda>(f, lmap). (f, py_sorted (dict_keys lmap))) (merge_items m d))) f
           = Some []"
proof -
  show g: "dict_get (merge_items m d) f = Some []"
    using dict_get_merge_empty [OF assms(1,2), of m] assms(3) by simp
  have "\<forall>x. (f, x) \<in> set d \<longrightarrow> x = []"
    using wf_dict_unique [OF assms(1,2)] assms(1,2)
    by (auto simp: wf_dict_def dict_keys_def dict_get_def dest: map_of_SomeD eq_key_imp_eq_value)
  moreover from assms(3) have "\<forall>y. (f, y) \<in> set m \<longrightarrow> y = []"
    by (force simp: dict_get_def map_of_eq_None_iff)
  ultimately have e: "\<forall>y. (f, y) \<in> set (merge_items m d) \<longrightarrow> y = []"
    by (rule empty_entries_merge_items)
  let ?xs = "map (\<lambda>(f, lmap). (f, py_sorted (dict_keys lmap))) (merge_items m d)"
  from g have "f \<in> fst ` set (merge_items m d)"
    using dict_get_keyset [OF g] by (simp add: keyset_def dict_keys_def)
  then have "f \<in> fst ` set (rev ?xs)" by force
  then obtain v where v: "map_of (rev ?xs) f = Some v"
    by (cases "map_of (rev ?xs) f") (auto simp: map_of_eq_None_iff)
  then have "(f, v) \<in> set ?xs" by (auto dest: map_of_SomeD)
  then obtain y where y: "(f, y) \<in> set (merge_items m d)" "v = py_sorted (dict_keys y)"
    by auto
  from e y(1) have "y = []" by blast
  with y(2) have "v = []" by (simp add: dict_keys_def py_sorted_Nil)
  with v show "dict_get (py_dict ?xs) f = Some []" by (simp add: dict_get_py_dict)
qed

text \<open>
  C9. Let a mapping give the file \<open>f\<close> an empty set of line numbers. After
  \<^verbatim>\<open>add_line_data\<close> with it, on any store, \<open>f\<close> is among \<^verbatim>\<open>executed_files()\<close>; if
  \<open>f\<close> had no entry in the line map, \<^verbatim>\<open>line_data()\<close> gives it the empty list and
  \<^verbatim>\<open>executed_lines(f)\<close> is empty. \<^verbatim>\<open>add_arc_data\<close> does the same to the arc map,
  whatever the line map holds, and neither call touches the other map.
\<close>

theorem add_empty_creates_entry:
  assumes "wf_dict d" "dict_get d f = Some []"
  shows "f \<in> set (executed_files (add_line_data st d))
       \<and> (dict_get (lines st) f = None \<longrightarrow>
            dict_get (line_data (add_line_data st d)) f = Some []
          \<and> executed_lines (add_line_data st d) f = [])
       \<and> f \<in> set (dict_keys (arcs (add_arc_data st d)))
       \<and> (dict_get (arcs st) f = None \<longrightarrow>
            dict_get (arc_data (add_arc_data st d)) f = Some []
          \<and> executed_arcs (add_arc_data st d) f = [])
       \<and> arcs (add_line_data st d) = arcs st
       \<and> lines (add_arc_data st d) = lines st"
proof -
  from assms(2) have k: "f \<in> keyset d" by (rule dict_get_keyset)
  have in_keys: "f \<in> set (dict_keys (merge_items m d))" for m
  proof -
    have "setmap (merge_items m d) f \<noteq> None" using k by (simp add: setmap_merge_items)
    then obtain y where "dict_get (merge_items m d) f = Some y" by (auto simp: setmap_def)
    from dict_get_keyset [OF this] show ?thesis by (simp add: keyset_def)
  qed
  have 1: "f \<in> set (executed_files (add_line_data st d))"
    by (simp add: executed_files_def add_line_data_def in_keys)
  have 2: "dict_get (line_data (add_line_data st d)) f = Some []
          \<and> executed_lines (add_line_data st d) f = []"
    if "dict_get (lines st) f = None"
    using merge_empty_absent [OF assms that]
    by (simp add: line_data_def executed_lines_def add_line_data_def)
  have 3: "f \<in> set (dict_keys (arcs (add_arc_data st d)))"
    by (simp add: add_arc_data_def in_keys)
  have 4: "dict_get (arc_data (add_arc_data st d)) f = Some []
          \<and> executed_arcs (add_arc_data st d) f = []"
    if "dict_get (arcs st) f = None"
    using merge_empty_absent [OF assms that]
    by (simp add: arc_data_def executed_arcs_def add_arc_data_def)
  have 5: "arcs (add_line_data st d) = arcs st" "lines (add_arc_data st d) = lines st"
    by (simp_all add: add_line_data_def add_arc_data_def)
  from 1 2 3 4 5 show ?thesis by blast
qed

theorem add_empty_creates_entry_witness:
  "PStr ''b.py'' \<in> set (executed_files
       (add_line_data
          \<lparr>collector = None, use_file = True, filename = ''/d/cov'',
           lines = [(PStr ''a.py'', [(PInt 7, ())])], arcs = [(PStr ''b.py'', [])]\<rparr>
          [(PStr ''b.py'', [])]))
   \<and> dict_get (line_data
       (add_line_data
          \<lparr>collector = None, use_file = True, filename = ''/d/cov'',
           lines = [(PStr ''a.py'', [(PInt 7, ())])], arcs = [(PStr ''b.py'', [])]\<rparr>
          [(PStr ''b.py'', [])])) (PStr ''b.py'') = Some []
   \<and> dict_get (arc_data
       (add_arc_data
          \<lparr>collector = None, use_file = True, filename = ''/d/cov'',
           lines = [(PStr ''a.py'', [(PInt 7, ())])], arcs = [(PStr ''b.py'', [])]\<rparr>
          [(PStr ''c.py'', [])])) (PStr ''c.py'') = Some []"
  using add_empty_creates_entry [of "[(PStr ''b.py'', [])]" "PStr ''b.py''"
      "\<lparr>collector = None, use_file = True, filename = ''/d/cov'',
           lines = [(PStr ''a.py'', [(PInt 7, ())])], arcs = [(PStr ''b.py'', [])]\<rparr>"]
    add_empty_creates_entry [of "[(PStr ''c.py'', [])]" "PStr ''c.py''"
      "\<lparr>collector = None, use_file = True, filename = ''/d/cov'',
           lines = [(PStr ''a.py'', [(PInt 7, ())])], arcs = [(PStr ''b.py'', [])]\<rparr>"]
  by (simp add: wf_dict_def dict_keys_def dict_get_def)

section \<open>Erasing\<close>

text \<open>
  C7 as stated fails: with file storage enabled and a data file that exists and that
  \<^verbatim>\<open>os.remove\<close> cannot remove, \<^verbatim>\<open>erase\<close> raises \<^verbatim>\<open>OSError\<close> before it resets
  the maps; the store keeps its line map, \<^verbatim>\<open>executed_files()\<close> is not empty and the
  file is still there.
\<close>

theorem erase_denied_counterexample:
  "erase \<lparr>collector = None, use_file = True, filename = ''/d/cov'',
          lines = [(PStr ''a.py'', [(PInt 7, ())])], arcs = []\<rparr>
         \<lparr>files = [''/d/cov'' \<mapsto> Garbage], listing = Map.empty, denied = {''/d/cov''}\<rparr>
     = (Some OSError,
        \<lparr>collector = None, use_file = True, filename = ''/d/cov'',
          lines = [(PStr ''a.py'', [(PInt 7, ())])], arcs = []\<rparr>,
        \<lparr>files = [''/d/cov'' \<mapsto> Garbage], listing = Map.empty, denied = {''/d/cov''}\<rparr>)
   \<and> executed_files \<lparr>collector = None, use_file = True, filename = ''/d/cov'',
          lines = [(PStr ''a.py'', [(PInt 7, ())])], arcs = []\<rparr> = [PStr ''a.py'']"
  by (simp add: erase_def os_path_exists_def os_remove_def executed_files_def dict_keys_def)

text \<open>
  C7, amended. Unless file storage is enabled, the data file exists and
  \<^verbatim>\<open>os.remove\<close> fails on it, \<^verbatim>\<open>erase\<close> returns with both in-memory maps empty,
  whatever the file-storage flag, so that \<^verbatim>\<open>executed_files()\<close> is empty afterwards;
  with file storage enabled the data file does not exist afterwards and no other file
  is touched, and with file storage disabled the file system is left as it was. In
  the excepted case the \<^verbatim>\<open>OSError\<close> of \<^verbatim>\<open>os.remove\<close> leaves \<^verbatim>\<open>erase\<close>, and
  store and file system are as before the call.
\<close>

theorem erase_resets:
  "(\<not> (use_file st \<and> os_path_exists fs (filename st) \<and> filename st \<in> denied fs) \<longrightarrow>
      (\<exists>st' fs'. erase st fs = (None, st', fs')
           \<and> lines st' = [] \<and> arcs st' = [] \<and> executed_files st' = []
           \<and> (use_file st \<longrightarrow> \<not> os_path_exists fs' (filename st)
                 \<and> (\<forall>p. p \<noteq> filename st \<longrightarrow> files fs' p = files fs p))
           \<and> (\<not> use_file st \<longrightarrow> fs' = fs)))
   \<and> (use_file st \<and> os_path_exists fs (filename st) \<and> filename st \<in> denied fs \<longrightarrow>
        erase st fs = (Some OSError, st, fs))"
proof (intro conjI impI)
  assume a: "\<not> (use_file st \<and> os_path_exists fs (filename st) \<and> filename st \<in> denied fs)"
  show "\<exists>st' fs'. erase st fs = (None, st', fs')
           \<and> lines st' = [] \<and> arcs st' = [] \<and> executed_files st' = []
           \<and> (use_file st \<longrightarrow> \<not> os_path_exists fs' (filename st)
                 \<and> (\<forall>p. p \<noteq> filename st \<longrightarrow> files fs' p = files fs p))
           \<and> (\<not> use_file st \<longrightarrow> fs' = fs)"
  proof (cases "use_file st \<and> os_path_exists fs (filename st)")
    case True
    with a have "filename st \<notin> denied fs" by simp
    with True show ?thesis
      by (simp add: erase_def os_remove_def os_path_exists_def executed_files_def dict_keys_def)
  next
    case False
    then show ?thesis
      by (auto simp: erase_def os_path_exists_def executed_files_def dict_keys_def fun_eq_iff)
  qed
next
  assume "use_file st \<and> os_path_exists fs (filename st) \<and> filename st \<in> denied fs"
  then show "erase st fs = (Some OSError, st, fs)"
    by (simp add: erase_def os_remove_def os_path_exists_def)
qed

theorem erase_resets_witness:
  "(\<exists>st' fs'.
     erase \<lparr>collector = None, use_file = True, filename = ''/d/cov'',
            lines = [(PStr ''a.py'', [(PInt 7, ())])], arcs = [(PStr ''a.py'', [])]\<rparr>
           \<lparr>files = [''/d/cov'' \<mapsto> Garbage], listing = Map.empty, denied = {}\<rparr>
       = (None, st', fs')
     \<and> executed_files st' = [] \<and> arcs st' = [] \<and> files fs' ''/d/cov'' = None)
   \<and> fst (erase \<lparr>collector = None, use_file = True, filename = ''/d/cov'',
            lines = [(PStr ''a.py'', [(PInt 7, ())])], arcs = [(PStr ''a.py'', [])]\<rparr>
           \<lparr>files = [''/d/cov'' \<mapsto> Garbage], listing = Map.empty,
            denied = {''/d/cov''}\<rparr>) = Some OSError"
  using erase_resets [of
      "\<lparr>collector = None, use_file = True, filename = ''/d/cov'',
            lines = [(PStr ''a.py'', [(PInt 7, ())])], arcs = [(PStr ''a.py'', [])]\<rparr>"
      "\<lparr>files = [''/d/cov'' \<mapsto> Garbage], listing = Map.empty, denied = {}\<rparr>"]
    erase_resets [of
      "\<lparr>collector = None, use_file = True, filename = ''/d/cov'',
            lines = [(PStr ''a.py'', [(PInt 7, ())])], arcs = [(PStr ''a.py'', [])]\<rparr>"
      "\<lparr>files = [''/d/cov'' \<mapsto> Garbage], listing = Map.empty,
            denied = {''/d/cov''}\<rparr>"]
  by (auto simp: os_path_exists_def)

section \<open>Combining\<close>

lemma arcs_combine_entry:
  "combine_entry fs data_dir local f st = Inr st' \<Longrightarrow> arcs st' = arcs st"
  by (auto simp: combine_entry_def split: if_splits sum.splits prod.splits)

lemma arcs_combine_loop:
  "combine_loop fs data_dir local names st = Inr st' \<Longrightarrow> arcs st' = arcs st"
proof (induction names arbitrary: st)
  case Nil
  then show ?case by simp
next
  case (Cons f names)
  from Cons.prems obtain s where s: "combine_entry fs data_dir local f st = Inr s"
    and r: "combine_loop fs data_dir local names s = Inr st'"
    by (auto split: sum.splits)
  from Cons.IH [OF r] arcs_combine_entry [OF s] show ?case by simp
qed

text \<open>
  C5. When \<^verbatim>\<open>combine_parallel_data\<close> returns, the store's arc map is the one it had
  before the call: the arcs that \<^verbatim>\<open>_read_file\<close> returned for the sibling files are
  dropped.
\<close>

theorem combine_keeps_arcs:
  "combine_parallel_data st fs = Inr st' \<Longrightarrow> arcs st' = arcs st"
  by (auto simp: combine_parallel_data_def split: prod.splits sum.splits
      dest: arcs_combine_loop)

theorem combine_keeps_arcs_witness:
  "combine_parallel_data
     \<lparr>collector = None, use_file = True, filename = ''/d/cov'', lines = [], arcs = []\<rparr>
     \<lparr>files = [''/d/cov.1'' \<mapsto> Pickled (PDict
         [(PStr ''lines'', PDict [(PStr ''a.py'', PList [PInt 1, PInt 2])]),
          (PStr ''arcs'', PDict [(PStr ''a.py'', PList [PTuple [PInt 1, PInt 2]])])])],
      listing = [''/d'' \<mapsto> [''cov.1'']], denied = {}\<rparr>
   = Inr \<lparr>collector = None, use_file = True, filename = ''/d/cov'',
          lines = [(PStr ''a.py'', [(PInt 1, ()), (PInt 2, ())])], arcs = []\<rparr>
   \<and> arcs \<lparr>collector = None, use_file = True, filename = ''/d/cov'',
          lines = [(PStr ''a.py'', [(PInt 1, ()), (PInt 2, ())])], arcs = []\<rparr> = []"
proof -
  have c: "combine_parallel_data
     \<lparr>collector = None, use_file = True, filename = ''/d/cov'', lines = [], arcs = []\<rparr>
     \<lparr>files = [''/d/cov.1'' \<mapsto> Pickled (PDict
         [(PStr ''lines'', PDict [(PStr ''a.py'', PList [PInt 1, PInt 2])]),
          (PStr ''arcs'', PDict [(PStr ''a.py'', PList [PTuple [PInt 1, PInt 2]])])])],
      listing = [''/d'' \<mapsto> [''cov.1'']], denied = {}\<rparr>
   = Inr \<lparr>collector = None, use_file = True, filename = ''/d/cov'',
          lines = [(PStr ''a.py'', [(PInt 1, ()), (PInt 2, ())])], arcs = []\<rparr>"
    by (simp add: combine_parallel_data_def os_path_split_def os_path_basename_def
        os_listdir_def combine_entry_def startswith_def os_path_join_def u_read_file_def
        raw_data_def unpack_item_def dict_get_def dict_fromkeys_def py_dict_def
        dict_update_def merge_items_def setdefault_update_def)
  from combine_keeps_arcs [OF c] c show ?thesis by simp
qed

section \<open>Reading a data file\<close>











section \<open>Writing a data file\<close>

lemma dict_get_setitem:
  "dict_get (dict_setitem d k v) k' = (if k' = k then Some v else dict_get d k')"
  by (simp add: dict_get_def map_of_setitem)

lemma py_dict_Nil_iff: "py_dict xs = [] \<longleftrightarrow> xs = []"
proof (cases xs)
  case Nil
  then show ?thesis by (simp add: py_dict_def dict_update_def)
next
  case (Cons p ys)
  have "keyset (py_dict xs) = keyset xs" by (simp add: py_dict_def keyset_update keyset_Nil)
  with Cons have "keyset (py_dict xs) \<noteq> {}" by (simp add: keyset_Cons)
  with Cons show ?thesis by (auto simp: keyset_Nil)
qed

lemma arc_data_Nil_iff: "arc_data st = [] \<longleftrightarrow> arcs st = []"
  by (simp add: arc_data_def py_dict_Nil_iff)

lemma sorted_py_sorted: "sorted (map cmp_key (py_sorted xs))"
  by (simp add: py_sorted_def)

lemma set_py_sorted: "set (py_sorted xs) = set xs"
  by (simp add: py_sorted_def)

lemma distinct_py_sorted: "distinct (py_sorted xs) = distinct xs"
  by (simp add: py_sorted_def)

lemma dict_get_write_file_data:
  "dict_get (write_file_data st) (PStr ''lines'') = Some (as_pyval (line_data st))"
  "dict_get (write_file_data st) (PStr ''arcs'')
     = (if arcs st \<noteq> [] then Some (as_pyval (arc_data st)) else None)"
  "dict_get (write_file_data st) (PStr ''collector'')
     = (case collector st of None \<Rightarrow> None | Some c \<Rightarrow> if c \<noteq> [] then Some (PStr c) else None)"
  by (simp_all add: write_file_data_def Let_def dict_get_setitem arc_data_Nil_iff
      split: option.splits, simp_all add: dict_get_def)

text \<open>
  C6 as stated fails: after \<^verbatim>\<open>add_arc_data({'a.py': {}})\<close> no file has an arc, and
  the record has the \<^verbatim>\<open>'arcs'\<close> key all the same.
\<close>

theorem write_file_arcs_counterexample:
  "executed_arcs
     (add_arc_data
        \<lparr>collector = None, use_file = True, filename = ''/d/cov'', lines = [], arcs = []\<rparr>
        [(PStr ''a.py'', [])]) (PStr ''a.py'') = []
   \<and> dict_keys (arcs
     (add_arc_data
        \<lparr>collector = None, use_file = True, filename = ''/d/cov'', lines = [], arcs = []\<rparr>
        [(PStr ''a.py'', [])])) = [PStr ''a.py'']
   \<and> dict_get (write_file_data
     (add_arc_data
        \<lparr>collector = None, use_file = True, filename = ''/d/cov'', lines = [], arcs = []\<rparr>
        [(PStr ''a.py'', [])])) (PStr ''arcs'') = Some (PDict [(PStr ''a.py'', PList [])])"
  by (simp add: write_file_data_def add_arc_data_def merge_items_def setdefault_update_def
      dict_get_def dict_update_def arc_data_def line_data_def py_dict_def as_pyval_def
      dict_keys_def py_sorted_def executed_arcs_def)

text \<open>
  C6, amended. The record that \<^verbatim>\<open>write_file\<close> pickles into the file always has
  the \<^verbatim>\<open>'lines'\<close> key, holding \<^verbatim>\<open>line_data()\<close>, which gives every file of the line
  map the sorted list of its line numbers; it has the \<^verbatim>\<open>'arcs'\<close> key, holding
  \<^verbatim>\<open>arc_data()\<close>, exactly when the arc map has at least one file entry (be its arc
  set empty or not); and it has the \<^verbatim>\<open>'collector'\<close> key exactly when the collector
  is a string that is not empty.
\<close>

theorem write_file_record:
  assumes "wf_dict (lines st)" "write_file st fs path = Inr fs'"
  shows "\<exists>data. files fs' path = Some (Pickled (PDict data))
     \<and> dict_get data (PStr ''lines'') = Some (as_pyval (line_data st))
     \<and> (\<forall>f. dict_get (line_data st) f
              = map_option (\<lambda>lmap. py_sorted (dict_keys lmap)) (dict_get (lines st) f))
     \<and> (\<forall>f xs. dict_get (line_data st) f = Some xs
              \<longrightarrow> sorted (map cmp_key xs) \<and> set xs = keyset (executed_lines st f))
     \<and> dict_get data (PStr ''arcs'')
          = (if arcs st \<noteq> [] then Some (as_pyval (arc_data st)) else None)
     \<and> dict_get data (PStr ''collector'')
          = (case collector st of
               None \<Rightarrow> None
             | Some c \<Rightarrow> if c \<noteq> [] then Some (PStr c) else None)"
proof -
  from assms(2) have f: "files fs' path = Some (Pickled (PDict (write_file_data st)))"
    by (auto simp: write_file_def split: if_splits)
  have g: "dict_get (line_data st) f
             = map_option (\<lambda>lmap. py_sorted (dict_keys lmap)) (dict_get (lines st) f)" for f
    by (simp add: line_data_wf [OF assms(1)] dict_get_map_values)
  have s: "sorted (map cmp_key xs) \<and> set xs = keyset (executed_lines st f)"
    if "dict_get (line_data st) f = Some xs" for f xs
  proof -
    from that obtain z where z: "dict_get (lines st) f = Some z" "xs = py_sorted (dict_keys z)"
      unfolding g by auto
    have "keyset (executed_lines st f) = keyset z"
      by (simp add: keyset_executed_lines setmap_def sets_of_def z)
    then show ?thesis
      by (simp add: z sorted_py_sorted set_py_sorted keyset_def)
  qed
  from f g s show ?thesis
    by (auto simp: dict_get_write_file_data)
qed

theorem write_file_record_witness:
  "dict_get (write_file_data
       \<lparr>collector = Some ''v3'', use_file = True, filename = ''/d/cov'',
        lines = [(PStr ''a.py'', [(PInt 3, ()), (PInt 1, ())])], arcs = []\<rparr>) (PStr ''arcs'') = None
   \<and> dict_get (write_file_data
       \<lparr>collector = Some ''v3'', use_file = True, filename = ''/d/cov'',
        lines = [(PStr ''a.py'', [(PInt 3, ()), (PInt 1, ())])], arcs = []\<rparr>) (PStr ''collector'')
     = Some (PStr ''v3'')"
  using write_file_record [of
      "\<lparr>collector = Some ''v3'', use_file = True, filename = ''/d/cov'',
            lines = [(PStr ''a.py'', [(PInt 3, ()), (PInt 1, ())])], arcs = []\<rparr>"
      "\<lparr>files = Map.empty, listing = Map.empty, denied = {}\<rparr>" "''/d/cov''"
      "\<lparr>files = [''/d/cov'' \<mapsto> Pickled (PDict (write_file_data
           \<lparr>collector = Some ''v3'', use_file = True, filename = ''/d/cov'',
            lines = [(PStr ''a.py'', [(PInt 3, ()), (PInt 1, ())])], arcs = []\<rparr>))],
        listing = Map.empty, denied = {}\<rparr>"]
  by (simp add: wf_dict_def dict_keys_def write_file_def)

section \<open>Round trip\<close>

lemma fold_setitem_fresh:
  "distinct (map fst acc @ xs) \<Longrightarrow>
     fold (\<lambda>k a. dict_setitem a k ()) xs acc = acc @ map (\<lambda>k. (k, ())) xs"
proof (induction xs arbitrary: acc)
  case Nil
  show ?case by simp
next
  case (Cons x xs)
  from Cons.prems have "x \<notin> keyset acc" by (auto simp: keyset_def dict_keys_def)
  then have s: "dict_setitem acc x () = acc @ [(x, ())]" by (rule setitem_fresh)
  from Cons.prems have "distinct (map fst (acc @ [(x, ())]) @ xs)" by auto
  from Cons.IH [OF this] show ?case by (simp add: s)
qed

lemma dict_fromkeys_PList:
  "distinct xs \<Longrightarrow> list_all hashable xs \<Longrightarrow>
     dict_fromkeys (PList xs) = Inr (map (\<lambda>k. (k, ())) xs)"
  using fold_setitem_fresh [of "[]" xs] by (simp add: dict_fromkeys_def)

lemma unpack_items_PList:
  "list_all (\<lambda>(f, xs). distinct xs \<and> list_all hashable xs) d \<Longrightarrow>
     unpack_items (map (\<lambda>(f, xs). (f, PList xs)) d)
       = Inr (map (\<lambda>(f, xs). (f, map (\<lambda>k. (k, ())) xs)) d)"
  by (induction d) (auto simp: dict_fromkeys_PList)

lemma unpack_item_as_pyval:
  assumes "dict_get data (PStr key) = Some (as_pyval d)"
    and "list_all (\<lambda>(f, xs). distinct xs \<and> list_all hashable xs) d"
  shows "unpack_item data key = Inr (py_dict (map (\<lambda>(f, xs). (f, map (\<lambda>k. (k, ())) xs)) d))"
  using assms by (simp add: unpack_item_def as_pyval_def unpack_items_PList)

lemma unpack_item_absent:
  "dict_get data (PStr key) = None \<Longrightarrow> unpack_item data key = Inr []"
  by (simp add: unpack_item_def py_dict_def dict_update_def)

lemma py_sorted_idem: "py_sorted (py_sorted xs) = py_sorted xs"
  unfolding py_sorted_def by (rule sort_key_id_if_sorted) simp

lemma sorted_keys_ok:
  assumes "wf_filemap m"
  shows "list_all (\<lambda>(f, xs). distinct xs \<and> list_all hashable xs)
           (map (\<lambda>(f, d). (f, py_sorted (dict_keys d))) m)"
  using assms
  by (auto simp: wf_filemap_def list_all_iff wf_dict_def distinct_py_sorted set_py_sorted)

lemma unpack_sorted:
  assumes "wf_filemap m"
    and "dict_get data (PStr key)
           = Some (as_pyval (map (\<lambda>(f, d). (f, py_sorted (dict_keys d))) m))"
  shows "unpack_item data key = Inr (reread m)"
proof -
  from assms(1) have "wf_dict m" by (simp add: wf_filemap_def)
  then have "wf_dict (reread m)"
    by (simp add: reread_def wf_dict_def dict_keys_def case_prod_unfold o_def)
  then have "py_dict (reread m) = reread m" by (rule py_dict_wf)
  moreover have "map (\<lambda>(f, xs). (f, map (\<lambda>k. (k, ())) xs))
                   (map (\<lambda>(f, d). (f, py_sorted (dict_keys d))) m) = reread m"
    by (simp add: reread_def case_prod_unfold o_def)
  ultimately show ?thesis
    using unpack_item_as_pyval [OF assms(2) sorted_keys_ok [OF assms(1)]] by simp
qed

lemma sorted_keys_reread:
  "map (\<lambda>(f, d). (f, py_sorted (dict_keys d))) (reread m)
     = map (\<lambda>(f, d). (f, py_sorted (dict_keys d))) m"
  by (simp add: reread_def case_prod_unfold o_def dict_keys_def py_sorted_idem)

lemma wf_dict_reread: "wf_dict (reread m) = wf_dict m"
  by (simp add: reread_def wf_dict_def dict_keys_def case_prod_unfold o_def)

lemma setmap_reread: "setmap (reread m) = setmap m"
proof
  fix f
  have "keyset (map (\<lambda>k. (k, ())) (py_sorted (dict_keys d))) = keyset d" for d :: keydict
    by (simp add: keyset_def dict_keys_def o_def set_py_sorted)
  then show "setmap (reread m) f = setmap m f"
    by (simp add: setmap_def reread_def dict_get_map_values option.map_comp o_def)
qed

lemma read_back:
  assumes "wf_store st" "write_file st fs path = Inr fs'"
  shows "u_read_file fs' path = Inr (reread (lines st), reread (arcs st))"
proof -
  from assms(1) have wl: "wf_filemap (lines st)" and wa: "wf_filemap (arcs st)"
    by (simp_all add: wf_store_def)
  then have dl: "wf_dict (lines st)" and da: "wf_dict (arcs st)"
    by (simp_all add: wf_filemap_def)
  from assms(2) have raw: "raw_data fs' path = Inr (PDict (write_file_data st))"
    by (auto simp: write_file_def raw_data_def split: if_splits)
  have l: "unpack_item (write_file_data st) ''lines'' = Inr (reread (lines st))"
    by (rule unpack_sorted [OF wl]) (simp add: dict_get_write_file_data line_data_wf [OF dl])
  have a: "unpack_item (write_file_data st) ''arcs'' = Inr (reread (arcs st))"
  proof (cases "arcs st = []")
    case True
    then show ?thesis
      by (simp add: unpack_item_absent dict_get_write_file_data reread_def)
  next
    case False
    then show ?thesis
      by (intro unpack_sorted [OF wa]) (simp add: dict_get_write_file_data arc_data_wf [OF da])
  qed
  show ?thesis by (simp add: u_read_file_def raw l a)
qed

text \<open>
  C2. Let a store whose maps are dictionaries of dictionaries with hashable keys be
  written to a path, and let any other store read that path. Then the read returns,
  \<^verbatim>\<open>line_data()\<close> and \<^verbatim>\<open>arc_data()\<close> of the reader are those of the writer, and
  every file has the same set of line numbers and the same set of arcs in both stores.
\<close>

theorem write_read_roundtrip:
  assumes "wf_store st" "write_file st fs path = Inr fs'"
  shows "\<exists>st'. read_file st0 fs' path = Inr st'
       \<and> line_data st' = line_data st
       \<and> arc_data st' = arc_data st
       \<and> setmap (lines st') = setmap (lines st)
       \<and> setmap (arcs st') = setmap (arcs st)"
proof -
  from assms(1) have dl: "wf_dict (lines st)" and da: "wf_dict (arcs st)"
    by (simp_all add: wf_store_def wf_filemap_def)
  let ?st' = "st0\<lparr>lines := reread (lines st), arcs := reread (arcs st)\<rparr>"
  have r: "read_file st0 fs' path = Inr ?st'"
    by (simp add: read_file_def read_back [OF assms])
  have 1: "line_data ?st' = line_data st"
    using dl by (simp add: line_data_wf wf_dict_reread sorted_keys_reread)
  have 2: "arc_data ?st' = arc_data st"
    using da by (simp add: arc_data_wf wf_dict_reread sorted_keys_reread)
  have 3: "setmap (lines ?st') = setmap (lines st)" "setmap (arcs ?st') = setmap (arcs st)"
    by (simp_all add: setmap_reread)
  from r 1 2 3 show ?thesis by blast
qed

theorem write_read_roundtrip_witness:
  "\<exists>st'. read_file
      \<lparr>collector = None, use_file = True, filename = ''/d/other'', lines = [], arcs = []\<rparr>
      \<lparr>files = [''/d/cov'' \<mapsto> Pickled (PDict (write_file_data
           \<lparr>collector = Some ''v3'', use_file = True, filename = ''/d/cov'',
            lines = [(PStr ''a.py'', [(PInt 3, ()), (PInt 1, ())])],
            arcs = [(PStr ''a.py'', [(PTuple [PInt 1, PInt 3], ())])]\<rparr>))],
        listing = Map.empty, denied = {}\<rparr> ''/d/cov'' = Inr st'
   \<and> line_data st' = [(PStr ''a.py'', [PInt 1, PInt 3])]
   \<and> arc_data st' = [(PStr ''a.py'', [PTuple [PInt 1, PInt 3]])]"
proof -
  let ?st = "\<lparr>collector = Some ''v3'', use_file = True, filename = ''/d/cov'',
            lines = [(PStr ''a.py'', [(PInt 3, ()), (PInt 1, ())])],
            arcs = [(PStr ''a.py'', [(PTuple [PInt 1, PInt 3], ())])]\<rparr>"
  let ?fs = "\<lparr>files = Map.empty, listing = Map.empty, denied = {}\<rparr> :: filesystem"
  let ?fs' = "\<lparr>files = [''/d/cov'' \<mapsto> Pickled (PDict (write_file_data ?st))],
        listing = Map.empty, denied = {}\<rparr>"
  have w: "wf_store ?st"
    by (simp add: wf_store_def wf_filemap_def wf_dict_def dict_keys_def)
  have wr: "write_file ?st ?fs ''/d/cov'' = Inr ?fs'"
    by (simp add: write_file_def)
  from write_read_roundtrip [OF w wr] obtain st' where
    r: "read_file
      \<lparr>collector = None, use_file = True, filename = ''/d/other'', lines = [], arcs = []\<rparr>
      ?fs' ''/d/cov'' = Inr st'"
    and l: "line_data st' = line_data ?st" and a: "arc_data st' = arc_data ?st"
    by blast
  have "line_data ?st = [(PStr ''a.py'', [PInt 1, PInt 3])]"
    by (simp add: line_data_def py_dict_def dict_update_def py_sorted_def dict_keys_def)
  moreover have "arc_data ?st = [(PStr ''a.py'', [PTuple [PInt 1, PInt 3]])]"
    by (simp add: arc_data_def py_dict_def dict_update_def py_sorted_def dict_keys_def)
  ultimately show ?thesis using r l a by auto
qed

section \<open>Decoding sorts\<close>

lemma wf_dict_fold_setitem:
  "wf_dict acc \<Longrightarrow> wf_dict (fold (\<lambda>k a. dict_setitem a k v) xs acc)"
  by (induction xs arbitrary: acc) (simp_all add: wf_dict_setitem)

lemma keyset_fold_setitem:
  "keyset (fold (\<lambda>k a. dict_setitem a k v) xs acc) = keyset acc \<union> set xs"
  by (induction xs arbitrary: acc) (simp_all add: keyset_setitem)

lemma dict_fromkeys_PList_keys:
  assumes "list_all hashable xs"
  shows "\<exists>d. dict_fromkeys (PList xs) = Inr d \<and> distinct (dict_keys d) \<and> set (dict_keys d) = set xs"
proof -
  let ?d = "fold (\<lambda>k a. dict_setitem a k ()) xs []"
  have "wf_dict ?d" by (rule wf_dict_fold_setitem) (simp add: wf_dict_def dict_keys_def)
  moreover have "keyset ?d = set xs" by (simp add: keyset_fold_setitem keyset_Nil)
  ultimately show ?thesis
    using assms by (simp add: dict_fromkeys_def wf_dict_def keyset_def)
qed

text \<open>A list sorted by \<open>cmp_key\<close> is determined by its elements, where the encoding
  keeps the order.\<close>

lemma py_sorted_unique:
  fixes enc :: "'a::linorder \<Rightarrow> pyval"
  assumes emb: "\<And>x y. cmp_key (enc x) \<le> cmp_key (enc y) \<longleftrightarrow> x \<le> y"
    and d: "distinct ks" and s: "set ks = enc ` set ns"
  shows "py_sorted ks = map enc (sorted_list_of_set (set ns))"
proof -
  let ?t = "sorted_list_of_set (set ns)"
  have inj_e: "inj enc"
  proof (rule injI)
    fix x y assume "enc x = enc y"
    then have "cmp_key (enc x) \<le> cmp_key (enc y)" "cmp_key (enc y) \<le> cmp_key (enc x)" by simp_all
    then show "x = y" using emb by force
  qed
  have inj_k: "inj_on cmp_key (range enc)"
  proof (rule inj_onI)
    fix a b assume "a \<in> range enc" "b \<in> range enc" "cmp_key a = cmp_key b"
    then obtain x y where "a = enc x" "b = enc y" "cmp_key (enc x) = cmp_key (enc y)" by auto
    then show "a = b" using emb [of x y] emb [of y x] by force
  qed
  have inj_s: "inj_on cmp_key (enc ` set ns)"
    by (rule inj_on_subset [OF inj_k]) auto
  have so: "set (py_sorted ks) = enc ` set ns" by (simp add: set_py_sorted s)
  have a1: "sorted (map cmp_key (map enc ?t))"
    using sorted_sorted_list_of_set [of "set ns"]
    by (simp add: sorted_map o_def emb)
  have "distinct (map enc ?t)"
    by (simp add: distinct_map inj_on_subset [OF inj_e])
  then have a2: "distinct (map cmp_key (map enc ?t))"
    using inj_s by (simp add: distinct_map del: map_map)
  have a3: "sorted (map cmp_key (py_sorted ks))" by (rule sorted_py_sorted)
  have a4: "distinct (map cmp_key (py_sorted ks))"
    using d so inj_s by (simp add: distinct_map distinct_py_sorted)
  have a5: "set (map cmp_key (py_sorted ks)) = set (map cmp_key (map enc ?t))"
    using so by (simp add: image_image del: map_map)
  have "map cmp_key (py_sorted ks) = map cmp_key (map enc ?t)"
    by (rule sorted_distinct_set_unique [OF a3 a4 a1 a2 a5])
  moreover have "inj_on cmp_key (set (py_sorted ks) \<union> set (map enc ?t))"
    using so inj_s by simp
  ultimately show ?thesis by (simp only: inj_on_map_eq_map)
qed

lemma cmp_key_PInt: "cmp_key (PInt x) \<le> cmp_key (PInt y) \<longleftrightarrow> x \<le> y"
  by auto

lemma cmp_key_enc_arc: "cmp_key (enc_arc p) \<le> cmp_key (enc_arc q) \<longleftrightarrow> p \<le> q"
  by (cases p, cases q) (auto simp: enc_arc_def)

lemma unpack_items_hashable:
  "list_all (\<lambda>(f, xs). list_all hashable xs) d \<Longrightarrow>
     unpack_items (map (\<lambda>(f, xs). (f, PList xs)) d)
       = Inr (map (\<lambda>(f, xs). (f, fold (\<lambda>k a. dict_setitem a k ()) xs [])) d)"
  by (induction d) (auto simp: dict_fromkeys_def)

lemma sorted_fromkeys:
  fixes enc :: "'a::linorder \<Rightarrow> pyval"
  assumes emb: "\<And>x y. cmp_key (enc x) \<le> cmp_key (enc y) \<longleftrightarrow> x \<le> y"
  shows "py_sorted (dict_keys (fold (\<lambda>k a. dict_setitem a k ()) (map enc ns) []))
           = map enc (sorted_list_of_set (set ns))"
proof (rule py_sorted_unique [OF emb])
  let ?d = "fold (\<lambda>k a. dict_setitem a k ()) (map enc ns) []"
  have "wf_dict ?d" by (rule wf_dict_fold_setitem) (simp add: wf_dict_def dict_keys_def)
  then show "distinct (dict_keys ?d)" by (simp add: wf_dict_def)
  have "keyset ?d = enc ` set ns" by (simp add: keyset_fold_setitem keyset_Nil)
  then show "set (dict_keys ?d) = enc ` set ns" by (simp add: keyset_def)
qed

lemma decode_item:
  fixes enc :: "'a::linorder \<Rightarrow> pyval"
  assumes emb: "\<And>x y. cmp_key (enc x) \<le> cmp_key (enc y) \<longleftrightarrow> x \<le> y"
    and h: "\<And>x. hashable (enc x)"
    and d: "distinct (map fst L)"
    and g: "dict_get data (PStr key)
              = Some (as_pyval (map (\<lambda>(f, ns). (PStr f, map enc ns)) L))"
  shows "\<exists>m. unpack_item data key = Inr m \<and> wf_dict m
           \<and> map (\<lambda>(f, d). (f, py_sorted (dict_keys d))) m
               = map (\<lambda>(f, ns). (PStr f, map enc (sorted_list_of_set (set ns)))) L"
proof -
  let ?d = "map (\<lambda>(f, ns). (PStr f, map enc ns)) L"
  let ?m = "map (\<lambda>(f, xs). (f, fold (\<lambda>k a. dict_setitem a k ()) xs [])) ?d"
  have "list_all (\<lambda>(f, xs). list_all hashable xs) ?d"
    by (auto simp: list_all_iff h)
  then have u: "unpack_items (map (\<lambda>(f, xs). (f, PList xs)) ?d) = Inr ?m"
    by (rule unpack_items_hashable)
  have "map fst ?m = map PStr (map fst L)"
    by (simp add: case_prod_unfold o_def)
  with d have wf: "wf_dict ?m"
    by (simp add: wf_dict_def dict_keys_def distinct_map inj_on_def del: map_map)
  have "unpack_item data key = Inr (py_dict ?m)"
    using g u by (simp add: unpack_item_def as_pyval_def)
  then have 1: "unpack_item data key = Inr ?m" by (simp only: py_dict_wf [OF wf])
  have 2: "map (\<lambda>(f, d). (f, py_sorted (dict_keys d))) ?m
             = map (\<lambda>(f, ns). (PStr f, map enc (sorted_list_of_set (set ns)))) L"
    by (simp add: case_prod_unfold o_def sorted_fromkeys [OF emb])
  from 1 wf 2 show ?thesis by blast
qed

text \<open>
  C10. Let a data file that can be opened hold a record whose \<^verbatim>\<open>'lines'\<close> item
  gives every file name a sequence of integers and whose \<^verbatim>\<open>'arcs'\<close> item, if there
  is one, gives every file name a sequence of pairs of integers, in any order and with
  any repetitions. Then \<^verbatim>\<open>read_file\<close> returns, and afterwards \<^verbatim>\<open>line_data()\<close>
  gives every file the increasing list without repetitions of the set of its line
  numbers, and \<^verbatim>\<open>arc_data()\<close> the lexicographically increasing list without
  repetitions of the set of its arcs.
\<close>

theorem read_file_sorted_sets:
  assumes "raw_data fs path = Inr (PDict data)"
    and "distinct (map fst L)" "distinct (map fst A)"
    and "dict_get data (PStr ''lines'')
           = Some (as_pyval (map (\<lambda>(f, ns). (PStr f, map PInt ns)) L))"
    and "dict_get data (PStr ''arcs'')
           = Some (as_pyval (map (\<lambda>(f, ps). (PStr f, map enc_arc ps)) A))
         \<or> A = [] \<and> dict_get data (PStr ''arcs'') = None"
  shows "\<exists>st'. read_file st fs path = Inr st'
       \<and> line_data st'
           = map (\<lambda>(f, ns). (PStr f, map PInt (sorted_list_of_set (set ns)))) L
       \<and> arc_data st'
           = map (\<lambda>(f, ps). (PStr f, map enc_arc (sorted_list_of_set (set ps)))) A"
proof -
  obtain ml where ml: "unpack_item data ''lines'' = Inr ml" "wf_dict ml"
    "map (\<lambda>(f, d). (f, py_sorted (dict_keys d))) ml
       = map (\<lambda>(f, ns). (PStr f, map PInt (sorted_list_of_set (set ns)))) L"
    using decode_item [of PInt L data "''lines''", OF cmp_key_PInt _ assms(2) assms(4)]
    by auto
  have "\<exists>ma. unpack_item data ''arcs'' = Inr ma \<and> wf_dict ma
           \<and> map (\<lambda>(f, d). (f, py_sorted (dict_keys d))) ma
               = map (\<lambda>(f, ps). (PStr f, map enc_arc (sorted_list_of_set (set ps)))) A"
    using assms(5)
  proof
    assume "dict_get data (PStr ''arcs'')
           = Some (as_pyval (map (\<lambda>(f, ps). (PStr f, map enc_arc ps)) A))"
    from decode_item [of enc_arc A data "''arcs''", OF cmp_key_enc_arc _ assms(3) this]
    show ?thesis by (simp add: enc_arc_def)
  next
    assume "A = [] \<and> dict_get data (PStr ''arcs'') = None"
    then show ?thesis by (simp add: unpack_item_absent wf_dict_def dict_keys_def)
  qed
  then obtain ma where ma: "unpack_item data ''arcs'' = Inr ma" "wf_dict ma"
    "map (\<lambda>(f, d). (f, py_sorted (dict_keys d))) ma
       = map (\<lambda>(f, ps). (PStr f, map enc_arc (sorted_list_of_set (set ps)))) A"
    by blast
  let ?st' = "st\<lparr>lines := ml, arcs := ma\<rparr>"
  have r: "read_file st fs path = Inr ?st'"
    by (simp add: read_file_def u_read_file_def assms(1) ml(1) ma(1))
  have "line_data ?st' = map (\<lambda>(f, ns). (PStr f, map PInt (sorted_list_of_set (set ns)))) L"
    by (simp add: line_data_wf ml)
  moreover have "arc_data ?st'
      = map (\<lambda>(f, ps). (PStr f, map enc_arc (sorted_list_of_set (set ps)))) A"
    by (simp add: arc_data_wf ma)
  ultimately show ?thesis using r by blast
qed

theorem read_file_sorted_sets_witness:
  "\<exists>st'. read_file
      \<lparr>collector = None, use_file = True, filename = ''/d/cov'', lines = [], arcs = []\<rparr>
      \<lparr>files = [''/d/cov'' \<mapsto> Pickled (PDict
         [(PStr ''lines'', PDict [(PStr ''a.py'', PList [PInt 3, PInt 1, PInt 3, PInt 2])]),
          (PStr ''arcs'', PDict [(PStr ''a.py'',
             PList [PTuple [PInt 2, PInt 1], PTuple [PInt 1, PInt 3], PTuple [PInt 2, PInt 1],
                    PTuple [PInt 1, PInt 2]])])])],
       listing = Map.empty, denied = {}\<rparr> ''/d/cov'' = Inr st'
   \<and> line_data st' = [(PStr ''a.py'', [PInt 1, PInt 2, PInt 3])]
   \<and> arc_data st'
     = [(PStr ''a.py'', [PTuple [PInt 1, PInt 2], PTuple [PInt 1, PInt 3], PTuple [PInt 2, PInt 1]])]"
  using read_file_sorted_sets [of
      "\<lparr>files = [''/d/cov'' \<mapsto> Pickled (PDict
         [(PStr ''lines'', PDict [(PStr ''a.py'', PList [PInt 3, PInt 1, PInt 3, PInt 2])]),
          (PStr ''arcs'', PDict [(PStr ''a.py'',
             PList [PTuple [PInt 2, PInt 1], PTuple [PInt 1, PInt 3], PTuple [PInt 2, PInt 1],
                    PTuple [PInt 1, PInt 2]])])])],
       listing = Map.empty, denied = {}\<rparr>"
      "''/d/cov''"
      "[(PStr ''lines'', PDict [(PStr ''a.py'', PList [PInt 3, PInt 1, PInt 3, PInt 2])]),
          (PStr ''arcs'', PDict [(PStr ''a.py'',
             PList [PTuple [PInt 2, PInt 1], PTuple [PInt 1, PInt 3], PTuple [PInt 2, PInt 1],
                    PTuple [PInt 1, PInt 2]])])]"
      "[(''a.py'', [3, 1, 3, 2])]" "[(''a.py'', [(2, 1), (1, 3), (2, 1), (1, 2)])]"
      "\<lparr>collector = None, use_file = True, filename = ''/d/cov'', lines = [], arcs = []\<rparr>"]
  by (simp add: raw_data_def dict_get_def as_pyval_def enc_arc_def
      sorted_list_of_set_sort_remdups)

section \<open>Order of the directory entries\<close>

lemma merge_items_append: "merge_items m (a @ b) = merge_items (merge_items m a) b"
  by (simp add: merge_items_def)

lemma merge_items_Nil: "merge_items m [] = m"
  by (simp add: merge_items_def)

lemma sibling_items_Cons:
  "sibling_items fs data_dir local (f # names)
     = sibling_items fs data_dir local [f] @ sibling_items fs data_dir local names"
  by (simp add: sibling_items_def)

lemma combine_entry_ok:
  assumes "startswith f local \<longrightarrow> (\<exists>p. u_read_file fs (os_path_join data_dir f) = Inr p)"
  shows "combine_entry fs data_dir local f st
     = Inr (st\<lparr>lines := merge_items (lines st) (sibling_items fs data_dir local [f])\<rparr>)"
  using assms
  by (auto simp: combine_entry_def sibling_items_def merge_items_Nil split: prod.splits)

lemma combine_entry_reads:
  "combine_entry fs data_dir local f st = Inr s \<Longrightarrow>
     startswith f local \<longrightarrow> (\<exists>p. u_read_file fs (os_path_join data_dir f) = Inr p)"
  by (auto simp: combine_entry_def split: sum.splits)

lemma combine_loop_ok:
  assumes "\<forall>f\<in>set names. startswith f local
             \<longrightarrow> (\<exists>p. u_read_file fs (os_path_join data_dir f) = Inr p)"
  shows "combine_loop fs data_dir local names st
     = Inr (st\<lparr>lines := merge_items (lines st) (sibling_items fs data_dir local names)\<rparr>)"
  using assms
proof (induction names arbitrary: st)
  case Nil
  show ?case by (simp add: sibling_items_def merge_items_Nil)
next
  case (Cons f names)
  let ?s = "st\<lparr>lines := merge_items (lines st) (sibling_items fs data_dir local [f])\<rparr>"
  from Cons.prems have e: "combine_entry fs data_dir local f st = Inr ?s"
    by (intro combine_entry_ok) simp
  from Cons.prems have "\<forall>f\<in>set names. startswith f local
             \<longrightarrow> (\<exists>p. u_read_file fs (os_path_join data_dir f) = Inr p)"
    by simp
  from Cons.IH [OF this, of ?s] have "combine_loop fs data_dir local names ?s
      = Inr (?s\<lparr>lines := merge_items (lines ?s) (sibling_items fs data_dir local names)\<rparr>)" .
  also have "?s\<lparr>lines := merge_items (lines ?s) (sibling_items fs data_dir local names)\<rparr>
      = st\<lparr>lines := merge_items (lines st) (sibling_items fs data_dir local (f # names))\<rparr>"
    by (simp add: sibling_items_Cons [of _ _ _ f names] merge_items_append)
  finally show ?case by (simp add: e)
qed

lemma combine_loop_reads:
  "combine_loop fs data_dir local names st = Inr s \<Longrightarrow>
     \<forall>f\<in>set names. startswith f local
       \<longrightarrow> (\<exists>p. u_read_file fs (os_path_join data_dir f) = Inr p)"
proof (induction names arbitrary: st)
  case Nil
  show ?case by simp
next
  case (Cons f names)
  from Cons.prems obtain t where t: "combine_entry fs data_dir local f st = Inr t"
    and r: "combine_loop fs data_dir local names t = Inr s"
    by (auto split: sum.splits)
  from combine_entry_reads [OF t] Cons.IH [OF r] show ?case by simp
qed

lemma setmap_merge_cong:
  assumes "set a = set b"
  shows "setmap (merge_items m a) = setmap (merge_items m b)"
proof
  fix f
  from assms have "keyset a = keyset b" by (simp add: keyset_def dict_keys_def)
  with assms show "setmap (merge_items m a) f = setmap (merge_items m b) f"
    by (simp add: setmap_merge_items)
qed

lemma set_sibling_items:
  "set names = set names' \<Longrightarrow>
     set (sibling_items fs data_dir local names) = set (sibling_items fs data_dir local names')"
  by (simp add: sibling_items_def)

lemma u_read_file_cong:
  "files fs' = files fs \<Longrightarrow> denied fs' = denied fs \<Longrightarrow> u_read_file fs' path = u_read_file fs path"
  by (simp add: u_read_file_def raw_data_def)

lemma sibling_items_cong:
  "files fs' = files fs \<Longrightarrow> denied fs' = denied fs \<Longrightarrow>
     sibling_items fs' data_dir local names = sibling_items fs data_dir local names"
  by (simp only: sibling_items_def u_read_file_cong [of fs' fs])

text \<open>
  C4. Let \<^verbatim>\<open>combine_parallel_data\<close> return on a file system (the directory can be
  listed and no sibling file makes \<^verbatim>\<open>_read_file\<close> raise), and let a second file
  system hold the same files while \<^verbatim>\<open>os.listdir\<close> gives the entries of every
  directory in another order. Then \<^verbatim>\<open>combine_parallel_data\<close> returns there too, and
  every file has the same set of line numbers in the two results. Running it again on
  the result of the first run returns that store unchanged.
\<close>

theorem combine_order_independent:
  assumes "combine_parallel_data st fs = Inr st1"
    and "files fs' = files fs" "denied fs' = denied fs"
    and "\<forall>d names. listing fs d = Some names
           \<longrightarrow> (\<exists>names'. listing fs' d = Some names' \<and> mset names' = mset names)"
  shows "(\<exists>st2. combine_parallel_data st fs' = Inr st2 \<and> setmap (lines st2) = setmap (lines st1))
       \<and> combine_parallel_data st1 fs = Inr st1"
proof -
  obtain data_dir local where sp: "os_path_split (filename st) = (data_dir, local)"
    by (cases "os_path_split (filename st)")
  let ?d = "if data_dir \<noteq> [] then data_dir else ''.''"
  have c: "combine_parallel_data s g
             = (case listing g ?d of
                  None \<Rightarrow> Inl OSError
                | Some ns \<Rightarrow> combine_loop g data_dir local ns s)"
    if "filename s = filename st" for s g
    using that
    by (simp add: combine_parallel_data_def sp os_listdir_def split: option.splits)
  from assms(1) obtain names where n: "listing fs ?d = Some names"
    and l1: "combine_loop fs data_dir local names st = Inr st1"
    unfolding c [OF refl] by (cases "listing fs ?d") auto
  from combine_loop_reads [OF l1]
  have ok: "\<forall>f\<in>set names. startswith f local
             \<longrightarrow> (\<exists>p. u_read_file fs (os_path_join data_dir f) = Inr p)" .
  from combine_loop_ok [OF ok, of st] l1
  have st1: "st1 = st\<lparr>lines := merge_items (lines st) (sibling_items fs data_dir local names)\<rparr>"
    by simp
  from assms(4) n obtain names' where n': "listing fs' ?d = Some names'"
    and p: "mset names' = mset names"
    by blast
  from p have sn: "set names' = set names" by (rule mset_eq_setD)
  with ok have "\<forall>f\<in>set names'. startswith f local
             \<longrightarrow> (\<exists>p. u_read_file fs (os_path_join data_dir f) = Inr p)"
    by simp
  then have ok': "\<forall>f\<in>set names'. startswith f local
             \<longrightarrow> (\<exists>p. u_read_file fs' (os_path_join data_dir f) = Inr p)"
    by (simp only: u_read_file_cong [of fs' fs, OF assms(2,3)])
  from sn have "set (sibling_items fs data_dir local names')
               = set (sibling_items fs data_dir local names)"
    by (rule set_sibling_items)
  then have "set (sibling_items fs' data_dir local names')
               = set (sibling_items fs data_dir local names)"
    by (simp only: sibling_items_cong [OF assms(2,3)])
  then have "setmap (merge_items (lines st) (sibling_items fs' data_dir local names'))
               = setmap (merge_items (lines st) (sibling_items fs data_dir local names))"
    by (rule setmap_merge_cong)
  then have 1: "setmap (merge_items (lines st) (sibling_items fs' data_dir local names'))
                  = setmap (lines st1)"
    by (simp add: st1)
  have 2: "combine_parallel_data st fs'
             = Inr (st\<lparr>lines := merge_items (lines st) (sibling_items fs' data_dir local names')\<rparr>)"
    unfolding c [OF refl] by (simp only: n' option.case combine_loop_ok [OF ok'])
  have "filename st1 = filename st" by (simp add: st1)
  then have "combine_parallel_data st1 fs
      = Inr (st1\<lparr>lines := merge_items (lines st1) (sibling_items fs data_dir local names)\<rparr>)"
    unfolding c [OF \<open>filename st1 = filename st\<close>]
    by (simp only: n option.case combine_loop_ok [OF ok])
  also have "st1\<lparr>lines := merge_items (lines st1) (sibling_items fs data_dir local names)\<rparr> = st1"
    by (simp add: st1 merge_items_twice)
  finally have 3: "combine_parallel_data st1 fs = Inr st1" .
  let ?st2 = "st\<lparr>lines := merge_items (lines st) (sibling_items fs' data_dir local names')\<rparr>"
  have l2: "lines ?st2 = merge_items (lines st) (sibling_items fs' data_dir local names')"
    by simp
  have "setmap (lines ?st2) = setmap (lines st1)"
    unfolding l2 by (rule 1)
  with 2 have "combine_parallel_data st fs' = Inr ?st2 \<and> setmap (lines ?st2) = setmap (lines st1)"
    by (rule conjI)
  then have "\<exists>st2. combine_parallel_data st fs' = Inr st2 \<and> setmap (lines st2) = setmap (lines st1)"
    by (rule exI)
  then show ?thesis using 3 by (rule conjI)
qed

theorem combine_order_independent_witness:
  "combine_parallel_data
      \<lparr>collector = None, use_file = True, filename = ''/d/cov'', lines = [], arcs = []\<rparr>
      \<lparr>files = [''/d/cov.1'' \<mapsto> Pickled (PDict [(PStr ''lines'', PDict [(PStr ''a.py'', PList [PInt 1, PInt 2, PInt 3])])]),
                 ''/d/cov.2'' \<mapsto> Pickled (PDict [(PStr ''lines'', PDict [(PStr ''a.py'', PList [PInt 2, PInt 3, PInt 4])])])],
        listing = [''/d'' \<mapsto> [''cov.1'', ''cov.2'']], denied = {}\<rparr>
     = Inr \<lparr>collector = None, use_file = True, filename = ''/d/cov'',
        lines = [(PStr ''a.py'', [(PInt 1, ()), (PInt 2, ()), (PInt 3, ()), (PInt 4, ())])], arcs = []\<rparr>
   \<and> (\<exists>st2. combine_parallel_data
      \<lparr>collector = None, use_file = True, filename = ''/d/cov'', lines = [], arcs = []\<rparr>
      \<lparr>files = [''/d/cov.1'' \<mapsto> Pickled (PDict [(PStr ''lines'', PDict [(PStr ''a.py'', PList [PInt 1, PInt 2, PInt 3])])]),
                 ''/d/cov.2'' \<mapsto> Pickled (PDict [(PStr ''lines'', PDict [(PStr ''a.py'', PList [PInt 2, PInt 3, PInt 4])])])],
        listing = [''/d'' \<mapsto> [''cov.2'', ''cov.1'']], denied = {}\<rparr> = Inr st2
     \<and> setmap (lines st2) (PStr ''a.py'') = Some {PInt 1, PInt 2, PInt 3, PInt 4})
   \<and> combine_parallel_data
      \<lparr>collector = None, use_file = True, filename = ''/d/cov'',
        lines = [(PStr ''a.py'', [(PInt 1, ()), (PInt 2, ()), (PInt 3, ()), (PInt 4, ())])], arcs = []\<rparr>
      \<lparr>files = [''/d/cov.1'' \<mapsto> Pickled (PDict [(PStr ''lines'', PDict [(PStr ''a.py'', PList [PInt 1, PInt 2, PInt 3])])]),
                 ''/d/cov.2'' \<mapsto> Pickled (PDict [(PStr ''lines'', PDict [(PStr ''a.py'', PList [PInt 2, PInt 3, PInt 4])])])],
        listing = [''/d'' \<mapsto> [''cov.1'', ''cov.2'']], denied = {}\<rparr>
     = Inr \<lparr>collector = None, use_file = True, filename = ''/d/cov'',
        lines = [(PStr ''a.py'', [(PInt 1, ()), (PInt 2, ()), (PInt 3, ()), (PInt 4, ())])], arcs = []\<rparr>"
proof -
  have c: "combine_parallel_data
      \<lparr>collector = None, use_file = True, filename = ''/d/cov'', lines = [], arcs = []\<rparr>
      \<lparr>files = [''/d/cov.1'' \<mapsto> Pickled (PDict [(PStr ''lines'', PDict [(PStr ''a.py'', PList [PInt 1, PInt 2, PInt 3])])]),
                 ''/d/cov.2'' \<mapsto> Pickled (PDict [(PStr ''lines'', PDict [(PStr ''a.py'', PList [PInt 2, PInt 3, PInt 4])])])],
        listing = [''/d'' \<mapsto> [''cov.1'', ''cov.2'']], denied = {}\<rparr>
     = Inr \<lparr>collector = None, use_file = True, filename = ''/d/cov'',
        lines = [(PStr ''a.py'', [(PInt 1, ()), (PInt 2, ()), (PInt 3, ()), (PInt 4, ())])], arcs = []\<rparr>"
    by (simp add: combine_parallel_data_def os_path_split_def os_path_basename_def
        os_listdir_def combine_entry_def startswith_def os_path_join_def u_read_file_def
        raw_data_def unpack_item_def dict_get_def dict_fromkeys_def py_dict_def
        dict_update_def merge_items_def setdefault_update_def)
  have p: "\<forall>d names. listing \<lparr>files = [''/d/cov.1'' \<mapsto> Pickled (PDict [(PStr ''lines'', PDict [(PStr ''a.py'', PList [PInt 1, PInt 2, PInt 3])])]),
                 ''/d/cov.2'' \<mapsto> Pickled (PDict [(PStr ''lines'', PDict [(PStr ''a.py'', PList [PInt 2, PInt 3, PInt 4])])])],
        listing = [''/d'' \<mapsto> [''cov.1'', ''cov.2'']], denied = {}\<rparr> d = Some names
           \<longrightarrow> (\<exists>names'. listing \<lparr>files = [''/d/cov.1'' \<mapsto> Pickled (PDict [(PStr ''lines'', PDict [(PStr ''a.py'', PList [PInt 1, PInt 2, PInt 3])])]),
                 ''/d/cov.2'' \<mapsto> Pickled (PDict [(PStr ''lines'', PDict [(PStr ''a.py'', PList [PInt 2, PInt 3, PInt 4])])])],
        listing = [''/d'' \<mapsto> [''cov.2'', ''cov.1'']], denied = {}\<rparr> d = Some names' \<and> mset names' = mset names)"
    by auto
  have s: "setmap (lines \<lparr>collector = None, use_file = True, filename = ''/d/cov'',
        lines = [(PStr ''a.py'', [(PInt 1, ()), (PInt 2, ()), (PInt 3, ()), (PInt 4, ())])], arcs = []\<rparr>) (PStr ''a.py'') = Some {PInt 1, PInt 2, PInt 3, PInt 4}"
    by (simp add: setmap_def dict_get_def keyset_def dict_keys_def)
  from combine_order_independent [OF c _ _ p] c s show ?thesis
    by auto
qed

section \<open>Summary\<close>

lemma filename_fn_total:
  "fullpath \<or> is_str f \<Longrightarrow> \<exists>k. filename_fn fullpath f = Inr k"
  by (cases f) (auto simp: filename_fn_def is_str_def)

lemma summary_loop_total:
  "list_all (\<lambda>(f, ls). fullpath \<or> is_str f) items \<Longrightarrow>
     \<exists>r. summary_loop fullpath items summ = Inr r"
proof (induction items arbitrary: summ)
  case Nil
  show ?case by simp
next
  case (Cons p items)
  obtain f ls where p: "p = (f, ls)" by (cases p)
  from Cons.prems obtain k where k: "filename_fn fullpath f = Inr k"
    using filename_fn_total [of fullpath f] by (auto simp: p)
  from Cons.prems have "list_all (\<lambda>(f, ls). fullpath \<or> is_str f) items" by simp
  from Cons.IH [OF this] show ?case by (simp add: p k)
qed

lemma summary_loop_wf:
  "summary_loop fullpath items summ = Inr r \<Longrightarrow> wf_dict summ \<Longrightarrow> wf_dict r"
proof (induction items arbitrary: summ)
  case Nil
  then show ?case by simp
next
  case (Cons p items)
  obtain f ls where p: "p = (f, ls)" by (cases p)
  from Cons.prems(1) obtain k where k: "filename_fn fullpath f = Inr k"
    and r: "summary_loop fullpath items (dict_setitem summ k (length ls)) = Inr r"
    by (auto simp: p split: sum.splits)
  from Cons.IH [OF r] Cons.prems(2) show ?case by (simp add: wf_dict_setitem)
qed

lemma summary_loop_last:
  "summary_loop fullpath items summ = Inr r \<Longrightarrow>
     dict_get r k =
       (case filter (\<lambda>(f, ls). filename_fn fullpath f = Inr k) items of
          [] \<Rightarrow> dict_get summ k
        | x # xs \<Rightarrow> Some (length (snd (last (x # xs)))))"
proof (induction items arbitrary: summ)
  case Nil
  then show ?case by simp
next
  case (Cons p items)
  obtain f ls where p: "p = (f, ls)" by (cases p)
  from Cons.prems obtain k0 where k0: "filename_fn fullpath f = Inr k0"
    and r: "summary_loop fullpath items (dict_setitem summ k0 (length ls)) = Inr r"
    by (auto simp: p split: sum.splits)
  note ih = Cons.IH [OF r]
  show ?case
  proof (cases "k0 = k")
    case True
    then show ?thesis
      by (simp add: p k0 ih dict_get_setitem split: list.splits)
  next
    case False
    then show ?thesis
      by (simp add: p k0 ih dict_get_setitem split: list.splits)
  qed
qed

lemma filter_key_wf:
  "wf_dict m \<Longrightarrow>
     filter (\<lambda>(f, d). f = k) m = (case dict_get m k of None \<Rightarrow> [] | Some d \<Rightarrow> [(k, d)])"
proof (induction m)
  case Nil
  show ?case by (simp add: dict_get_def)
next
  case (Cons p m)
  obtain f d where p: "p = (f, d)" by (cases p)
  from Cons.prems have wf: "wf_dict m" and fresh: "f \<notin> fst ` set m"
    by (auto simp: wf_dict_def dict_keys_def p)
  show ?case
  proof (cases "f = k")
    case True
    with fresh have "dict_get m k = None" by (simp add: dict_get_def map_of_eq_None_iff)
    with Cons.IH [OF wf] True show ?thesis by (simp add: p dict_get_def)
  next
    case False
    with Cons.IH [OF wf] show ?thesis by (simp add: p dict_get_def)
  qed
qed

lemma length_wf_dict: "wf_dict d \<Longrightarrow> length d = card (keyset d)"
  using distinct_card [of "map fst d"] by (simp add: wf_dict_def keyset_def dict_keys_def)

lemma filename_fn_basename:
  "filename_fn False f = Inr k \<longleftrightarrow>
     (case f of PStr s \<Rightarrow> k = PStr (os_path_basename s) | _ \<Rightarrow> False)"
  by (cases f) (auto simp: filename_fn_def)

lemma basename_plain:
  assumes "CHR ''/'' \<notin> set p"
  shows "os_path_basename p = p"
proof -
  have "takeWhile (\<lambda>c. c \<noteq> CHR ''/'') (rev p) = rev p"
    using assms by (auto simp: takeWhile_eq_all_conv)
  then show ?thesis by (simp only: os_path_basename_def rev_rev_ident)
qed

lemma basename_of_path:
  assumes "CHR ''/'' \<notin> set name"
  shows "os_path_basename (dir @ CHR ''/'' # name) = name"
proof -
  have "takeWhile (\<lambda>c. c \<noteq> CHR ''/'') (rev name @ CHR ''/'' # rev dir) = rev name"
    using assms by (subst takeWhile_append2) auto
  then show ?thesis by (simp only: os_path_basename_def rev_append rev.simps rev_rev_ident append.simps append_assoc)
qed

text \<open>
  C8. Let the line map be a dictionary of dictionaries and, when the base names are
  asked for, let every file name be a string. Then \<^verbatim>\<open>summary\<close> returns a dictionary
  in which no key occurs twice. With \<^verbatim>\<open>fullpath\<close> true its keys are the file names of
  the line map, each with the number of distinct line numbers of that file. With
  \<^verbatim>\<open>fullpath\<close> false its keys are the base names of the file names, and the value
  of a base name is the number of distinct line numbers of the last file, in the
  iteration order of the line map, whose name has this base name. The base name of a
  path is what follows its last slash, and the whole path if it has no slash.
\<close>

theorem summary_counts:
  assumes "wf_filemap (lines st)"
    and "fullpath \<or> list_all (\<lambda>(f, ls). is_str f) (lines st)"
  shows "\<exists>summ. summary st fullpath = Inr summ \<and> wf_dict summ
     \<and> (fullpath \<longrightarrow>
           (\<forall>f. dict_get summ f = map_option (\<lambda>d. card (keyset d)) (dict_get (lines st) f)))
     \<and> (\<not> fullpath \<longrightarrow>
           (\<forall>k. dict_get summ k =
              (case filter (\<lambda>(f, ls). case f of PStr s \<Rightarrow> k = PStr (os_path_basename s)
                                               | _ \<Rightarrow> False) (lines st) of
                 [] \<Rightarrow> None
               | x # xs \<Rightarrow> Some (card (keyset (snd (last (x # xs))))))))
     \<and> (\<forall>dir name. CHR ''/'' \<notin> set name \<longrightarrow>
            os_path_basename (dir @ CHR ''/'' # name) = name \<and> os_path_basename name = name)"
proof -
  from assms(2) have "list_all (\<lambda>(f, ls). fullpath \<or> is_str f) (lines st)"
    by (auto simp: list_all_iff)
  then obtain summ where s: "summary st fullpath = Inr summ"
    using summary_loop_total [of fullpath "lines st" "[]"] by (auto simp: summary_def)
  then have l: "summary_loop fullpath (lines st) [] = Inr summ" by (simp add: summary_def)
  have wf: "wf_dict summ"
    by (rule summary_loop_wf [OF l]) (simp add: wf_dict_def dict_keys_def)
  from assms(1) have inner: "wf_dict d" if "(f, d) \<in> set (lines st)" for f d
    using that by (auto simp: wf_filemap_def list_all_iff)
  have g: "dict_get summ k =
           (case filter (\<lambda>(f, ls). filename_fn fullpath f = Inr k) (lines st) of
              [] \<Rightarrow> None
            | x # xs \<Rightarrow> Some (card (keyset (snd (last (x # xs))))))" for k
  proof (cases "filter (\<lambda>(f, ls). filename_fn fullpath f = Inr k) (lines st)")
    case Nil
    have "dict_get [] k = (None :: nat option)" by (simp add: dict_get_def)
    with Nil show ?thesis by (simp add: summary_loop_last [OF l])
  next
    case (Cons x xs)
    have "last (x # xs) \<in> set (filter (\<lambda>(f, ls). filename_fn fullpath f = Inr k) (lines st))"
      unfolding Cons by (rule last_in_set) simp
    then have "last (x # xs) \<in> set (lines st)" by simp
    then have "wf_dict (snd (last (x # xs)))"
      using inner [of "fst (last (x # xs))" "snd (last (x # xs))"] by simp
    then have "length (snd (last (x # xs))) = card (keyset (snd (last (x # xs))))"
      by (rule length_wf_dict)
    then show ?thesis by (simp add: summary_loop_last [OF l] Cons)
  qed
  have h: "dict_get summ f = map_option (\<lambda>d. card (keyset d)) (dict_get (lines st) f)"
    if "fullpath" for f
  proof -
    from assms(1) have "wf_dict (lines st)" by (simp add: wf_filemap_def)
    from filter_key_wf [OF this, of f] that show ?thesis
      by (simp add: g filename_fn_def split: option.splits)
  qed
  have b: "dict_get summ k =
              (case filter (\<lambda>(f, ls). case f of PStr s \<Rightarrow> k = PStr (os_path_basename s)
                                               | _ \<Rightarrow> False) (lines st) of
                 [] \<Rightarrow> None
               | x # xs \<Rightarrow> Some (card (keyset (snd (last (x # xs))))))"
    if "\<not> fullpath" for k
    using that g [of k] by (simp add: filename_fn_basename)
  have n: "os_path_basename (dir @ CHR ''/'' # name) = name \<and> os_path_basename name = name"
    if "CHR ''/'' \<notin> set name" for dir name
    using that by (simp add: basename_plain basename_of_path)
  from s wf h b n show ?thesis by blast
qed

theorem summary_counts_witness:
  "summary
     \<lparr>collector = None, use_file = True, filename = ''/d/cov'',
      lines = [(PStr ''/x/mod.py'', [(PInt 1, ()), (PInt 2, ())]),
               (PStr ''/y/other.py'', [(PInt 5, ())]),
               (PStr ''/y/mod.py'', [(PInt 1, ()), (PInt 2, ()), (PInt 3, ())])],
      arcs = []\<rparr> False = Inr [(PStr ''mod.py'', 3), (PStr ''other.py'', 1)]
   \<and> (\<exists>summ. summary
     \<lparr>collector = None, use_file = True, filename = ''/d/cov'',
      lines = [(PStr ''/x/mod.py'', [(PInt 1, ()), (PInt 2, ())]),
               (PStr ''/y/other.py'', [(PInt 5, ())]),
               (PStr ''/y/mod.py'', [(PInt 1, ()), (PInt 2, ()), (PInt 3, ())])],
      arcs = []\<rparr> False = Inr summ \<and> wf_dict summ
      \<and> dict_get summ (PStr ''mod.py'')
          = Some (card (keyset [(PInt 1, ()), (PInt 2, ()), (PInt (3::int), ())])))
   \<and> os_path_basename ''/y/mod.py'' = ''mod.py''"
proof -
  let ?st = "\<lparr>collector = None, use_file = True, filename = ''/d/cov'',
      lines = [(PStr ''/x/mod.py'', [(PInt 1, ()), (PInt 2, ())]),
               (PStr ''/y/other.py'', [(PInt 5, ())]),
               (PStr ''/y/mod.py'', [(PInt 1, ()), (PInt 2, ()), (PInt 3, ())])],
      arcs = []\<rparr>"
  have e: "summary ?st False = Inr [(PStr ''mod.py'', 3), (PStr ''other.py'', 1)]"
    by (simp add: summary_def filename_fn_def os_path_basename_def)
  have w: "wf_filemap (lines ?st)"
    by (simp add: wf_filemap_def wf_dict_def dict_keys_def)
  have i: "False \<or> list_all (\<lambda>(f, ls). is_str f) (lines ?st)"
    by (simp add: is_str_def)
  from summary_counts [OF w i] obtain summ where s: "summary ?st False = Inr summ" "wf_dict summ"
    and g: "\<forall>k. dict_get summ k =
              (case filter (\<lambda>(f, ls). case f of PStr s \<Rightarrow> k = PStr (os_path_basename s)
                                               | _ \<Rightarrow> False) (lines ?st) of
                 [] \<Rightarrow> None
               | x # xs \<Rightarrow> Some (card (keyset (snd (last (x # xs))))))"
    and n: "\<forall>dir name. CHR ''/'' \<notin> set name \<longrightarrow>
            os_path_basename (dir @ CHR ''/'' # name) = name \<and> os_path_basename name = name"
    by blast
  from n have b: "os_path_basename (''/y'' @ CHR ''/'' # ''mod.py'') = ''mod.py''"
    by (rule allE [where x = "''/y''"], elim allE [where x = "''mod.py''"]) simp
  from n have "os_path_basename (''/x'' @ CHR ''/'' # ''mod.py'') = ''mod.py''"
    by (rule allE [where x = "''/x''"], elim allE [where x = "''mod.py''"]) simp
  moreover from n have "os_path_basename (''/y'' @ CHR ''/'' # ''other.py'') = ''other.py''"
    by (rule allE [where x = "''/y''"], elim allE [where x = "''other.py''"]) simp
  ultimately have "dict_get summ (PStr ''mod.py'')
          = Some (card (keyset [(PInt 1, ()), (PInt 2, ()), (PInt (3::int), ())]))"
    using g b by simp
  with s e b show ?thesis by auto
qed

end
